theory Spec2Isabelle
  imports Complex_Main "HOL-Library.Word"
begin

unbundle bit_operations_syntax

section \<open>IEEE-754 binary32 values\<close>

text \<open>
  The program \<^verbatim>\<open>libsimdpp/01-start.cpp\<close> works on C++ \<^verbatim>\<open>float\<close> values. A
  \<^verbatim>\<open>float\<close> is modelled by its 32-bit pattern: bit 31 is the sign, bits 30..23 the biased
  exponent, bits 22..0 the fraction. Every finite binary32 value is an integer multiple of
  \<open>2 powr -149\<close>, so the arithmetic below is exact integer arithmetic in that unit.
\<close>

type_synonym float32 = "32 word"

definition sign_bit :: "float32 \<Rightarrow> bool" where
  "sign_bit w = bit w 31"

definition exp_field :: "float32 \<Rightarrow> nat" where
  "exp_field w = unat (take_bit 8 (drop_bit 23 w))"

definition frac_field :: "float32 \<Rightarrow> nat" where
  "frac_field w = unat (take_bit 23 w)"

definition is_nan :: "float32 \<Rightarrow> bool" where
  "is_nan w = (exp_field w = 255 \<and> frac_field w \<noteq> 0)"

definition is_inf :: "float32 \<Rightarrow> bool" where
  "is_inf w = (exp_field w = 255 \<and> frac_field w = 0)"

definition is_finite :: "float32 \<Rightarrow> bool" where
  "is_finite w = (exp_field w < 255)"

text \<open>The magnitude of a finite value, counted in units of \<open>2 powr -149\<close>.\<close>

definition magnitude :: "float32 \<Rightarrow> nat" where
  "magnitude w =
     (if exp_field w = 0 then frac_field w
      else (2 ^ 23 + frac_field w) * 2 ^ (exp_field w - 1))"

definition scaled :: "float32 \<Rightarrow> int" where
  "scaled w = (if sign_bit w then - int (magnitude w) else int (magnitude w))"

text \<open>The rational number a finite pattern denotes.\<close>

definition valof :: "float32 \<Rightarrow> rat" where
  "valof w = of_int (scaled w) / 2 ^ 149"

text \<open>The magnitude that the low 31 bits of a pattern denote.\<close>

definition bits_value :: "nat \<Rightarrow> nat" where
  "bits_value j =
     (if j div 2 ^ 23 = 0 then j mod 2 ^ 23
      else (2 ^ 23 + j mod 2 ^ 23) * 2 ^ (j div 2 ^ 23 - 1))"

text \<open>The low 31 bits of a pattern, as a number.\<close>

definition low_bits :: "float32 \<Rightarrow> nat" where
  "low_bits w = exp_field w * 2 ^ 23 + frac_field w"

subsection \<open>Rounding to nearest, ties to even\<close>

fun bit_length :: "nat \<Rightarrow> nat" where
  "bit_length n = (if n = 0 then 0 else Suc (bit_length (n div 2)))"

declare bit_length.simps [simp del]

text \<open>
  \<open>round_mag n\<close> rounds the magnitude \<open>n\<close> (in units of \<open>2 powr -149\<close>) to 24 significant
  bits, ties to the even significand, and returns the low 31 bits of the pattern: the
  exponent field times \<open>2 ^ 23\<close> plus the fraction. A carry out of the significand moves
  into the exponent field by itself. A result of \<open>255 * 2 ^ 23\<close> or more has overflowed.
\<close>

definition round_mag :: "nat \<Rightarrow> nat" where
  "round_mag n =
     (let sh = bit_length n - 24;
          q = n div 2 ^ sh;
          r = n mod 2 ^ sh;
          q' = (if 2 ^ sh < 2 * r \<or> (2 * r = 2 ^ sh \<and> odd q) then q + 1 else q)
      in sh * 2 ^ 23 + q')"

definition inf_bits :: nat where
  "inf_bits = 255 * 2 ^ 23"

definition encode :: "bool \<Rightarrow> nat \<Rightarrow> float32" where
  "encode neg m =
     (if neg then 0x80000000 else 0) OR
     (if inf_bits \<le> m then word_of_nat inf_bits else word_of_nat m)"

subsection \<open>Addition\<close>

text \<open>
  Modelled from the spec: the lane operation behind \<^verbatim>\<open>vec_a + vec_b\<close> belongs to the SIMD
  library and the hardware, neither of which is in the repository's source. The spec fixes it as
  IEEE-754 binary32 addition under round-to-nearest-ties-to-even, where "NaN/Inf propagate
  per IEEE-754": the exact sum of two finite operands is rounded once; an exact zero sum is
  \<open>+0\<close> unless both operands are \<open>-0\<close>; infinities of opposite sign give the default NaN.
  IEEE-754 leaves open which NaN comes out when an operand is a NaN; the model takes the
  first NaN operand with its quiet bit set.
\<close>

definition quiet :: "float32 \<Rightarrow> float32" where
  "quiet w = w OR 0x00400000"

definition default_nan :: float32 where
  "default_nan = 0xFFC00000"

definition fadd :: "float32 \<Rightarrow> float32 \<Rightarrow> float32" where
  "fadd x y =
     (if is_nan x then quiet x
      else if is_nan y then quiet y
      else if is_inf x then (if is_inf y \<and> sign_bit x \<noteq> sign_bit y then default_nan else x)
      else if is_inf y then y
      else
        (let s = scaled x + scaled y in
           if s = 0 then encode (sign_bit x \<and> sign_bit y) 0
           else encode (s < 0) (round_mag (nat \<bar>s\<bar>))))"

text \<open>
  A literal such as \<^verbatim>\<open>9.0f\<close> with a non-negative integer value: the compiler converts it to
  the nearest binary32 value.
\<close>

definition float_of_nat :: "nat \<Rightarrow> float32" where
  "float_of_nat n = encode False (round_mag (n * 2 ^ 149))"

section \<open>Default stream formatting of a float\<close>

text \<open>
  Modelled from the spec: \<^verbatim>\<open>std::cout << c[i]\<close> is the standard library's inserter, which
  is not in the repository's source. The spec calls its result the "default decimal representation".
  For a stream in its initial state (precision 6, no \<^verbatim>\<open>floatfield\<close> flag, classic locale)
  that is the conversion \<^verbatim>\<open>%g\<close> of \<^verbatim>\<open>printf\<close> with precision 6: the value is rounded to
  6 significant decimal digits; with \<open>X\<close> the decimal exponent of the rounded value, the
  fixed style is used when \<open>-4 \<le> X < 6\<close> and the exponent style otherwise; trailing zeros
  of the fraction and a bare decimal point are removed. The decimal rounding is to
  nearest, ties to even, on the exact value.
\<close>

definition digit_char :: "nat \<Rightarrow> char" where
  "digit_char d = ''0123456789'' ! d"

fun digits_of :: "nat \<Rightarrow> string" where
  "digits_of n =
     (if n < 10 then [digit_char n] else digits_of (n div 10) @ [digit_char (n mod 10)])"

declare digits_of.simps [simp del]

definition strip_zeros :: "string \<Rightarrow> string" where
  "strip_zeros s = rev (dropWhile (\<lambda>c. c = CHR ''0'') (rev s))"

definition pad_zeros :: "nat \<Rightarrow> string \<Rightarrow> string" where
  "pad_zeros n s = replicate (n - length s) (CHR ''0'') @ s"

text \<open>The integer nearest to \<open>a / b\<close>, ties to even.\<close>

definition round_div :: "nat \<Rightarrow> nat \<Rightarrow> nat" where
  "round_div a b =
     (let q = a div b; r = a mod b
      in if b < 2 * r \<or> (2 * r = b \<and> odd q) then q + 1 else q)"

text \<open>\<open>ge_pow10 m X\<close>: the value \<open>m / 2 ^ 149\<close> is at least \<open>10\<close> to the power \<open>X\<close>.\<close>

definition ge_pow10 :: "nat \<Rightarrow> int \<Rightarrow> bool" where
  "ge_pow10 m X =
     (if 0 \<le> X then 10 ^ nat X * 2 ^ 149 \<le> m else 2 ^ 149 \<le> m * 10 ^ nat (- X))"

text \<open>
  The decimal exponent of a positive magnitude: the search runs down from 38, the exponent
  of the largest finite binary32 value, and stops at -46, below the smallest one.
\<close>

function dec_exponent_from :: "nat \<Rightarrow> int \<Rightarrow> int" where
  "dec_exponent_from m X =
     (if X \<le> - 46 \<or> ge_pow10 m X then X else dec_exponent_from m (X - 1))"
  by pat_completeness auto
termination
  by (relation "measure (\<lambda>(m, X). nat (X + 46))") auto

declare dec_exponent_from.simps [simp del]

definition dec_exponent :: "nat \<Rightarrow> int" where
  "dec_exponent m = dec_exponent_from m 38"

text \<open>The value \<open>m / 2 ^ 149\<close> divided by \<open>10\<close> to the power \<open>X - 5\<close>, rounded to an integer.\<close>

definition sig_digits :: "nat \<Rightarrow> int \<Rightarrow> nat" where
  "sig_digits m X =
     (if 5 \<le> X then round_div m (2 ^ 149 * 10 ^ nat (X - 5))
      else round_div (m * 10 ^ nat (5 - X)) (2 ^ 149))"

definition fixed_style :: "nat \<Rightarrow> int \<Rightarrow> string" where
  "fixed_style D X =
     (let nd = nat (5 - X);
          fp = strip_zeros (pad_zeros nd (digits_of (D mod 10 ^ nd)))
      in digits_of (D div 10 ^ nd) @ (if fp = [] then [] else CHR ''.'' # fp))"

definition exp_style :: "nat \<Rightarrow> int \<Rightarrow> string" where
  "exp_style D X =
     (let ds = digits_of D;
          fp = strip_zeros (tl ds)
      in hd ds # (if fp = [] then [] else CHR ''.'' # fp) @ ''e''
         @ (if X < 0 then ''-'' else ''+'') @ pad_zeros 2 (digits_of (nat \<bar>X\<bar>)))"

definition fmt_g :: "nat \<Rightarrow> string" where
  "fmt_g m =
     (let X0 = dec_exponent m;
          D0 = sig_digits m X0;
          D = (if D0 = 1000000 then 100000 else D0);
          X = (if D0 = 1000000 then X0 + 1 else X0)
      in if - 4 \<le> X \<and> X < 6 then fixed_style D X else exp_style D X)"

definition show_float :: "float32 \<Rightarrow> string" where
  "show_float w =
     (if sign_bit w then ''-'' else []) @
     (if is_nan w then ''nan''
      else if is_inf w then ''inf''
      else if magnitude w = 0 then ''0''
      else fmt_g (magnitude w))"

section \<open>The machine: three arrays, the output stream, the access log\<close>

text \<open>
  \<^verbatim>\<open>main\<close> owns three arrays, \<^verbatim>\<open>a\<close>, \<^verbatim>\<open>b\<close> and \<^verbatim>\<open>c\<close>. A cell holds \<open>Some v\<close> once it
  has a value and \<open>None\<close> while it is indeterminate (\<^verbatim>\<open>float c[8];\<close> initialises nothing).
  An array that is not declared yet has no cells. \<open>cout\<close> is the text written to the
  standard output so far. \<open>accesses\<close> is a log, in program order, of every element read
  and element write; the program never looks at it. \<open>args\<close> and \<open>environ\<close> are the argument
  vector and the environment that the process was started with; they stay in the machine
  for as long as the process lives, where a program reaches them through the parameters
  of \<^verbatim>\<open>main\<close> or through \<^verbatim>\<open>getenv\<close>.
\<close>

datatype array_id = Arr_a | Arr_b | Arr_c

datatype access = Read array_id nat | Write array_id nat

text \<open>
  Reading or writing past the end of an array and reading an indeterminate cell are
  undefined behaviour in C++; the model stops with a fault there.
\<close>

datatype fault = Out_of_bounds array_id nat | Indeterminate array_id nat

record machine =
  mem :: "array_id \<Rightarrow> float32 option list"
  cout :: string
  accesses :: "access list"
  args :: "string list"
  environ :: "(string \<times> string) list"

type_synonym 'a outcome = "fault + ('a \<times> machine)"

text \<open>
  The machine on which a process starts: no array declared, nothing written, nothing
  accessed, and the arguments and the environment it was given. \<open>boot\<close> is the start with
  no arguments and an empty environment.
\<close>

definition startup :: "string list \<Rightarrow> (string \<times> string) list \<Rightarrow> machine" where
  "startup argv envp =
     \<lparr>mem = (\<lambda>x. []), cout = [], accesses = [], args = argv, environ = envp\<rparr>"

definition boot :: machine where
  "boot = \<lparr>mem = (\<lambda>x. []), cout = [], accesses = [], args = [], environ = []\<rparr>"

definition declare_array :: "array_id \<Rightarrow> float32 option list \<Rightarrow> machine \<Rightarrow> machine" where
  "declare_array x cells s = s\<lparr>mem := (mem s)(x := cells)\<rparr>"

definition read_elem :: "array_id \<Rightarrow> nat \<Rightarrow> machine \<Rightarrow> float32 outcome" where
  "read_elem x i s =
     (if i < length (mem s x) then
        (case mem s x ! i of
           None \<Rightarrow> Inl (Indeterminate x i)
         | Some v \<Rightarrow> Inr (v, s\<lparr>accesses := accesses s @ [Read x i]\<rparr>))
      else Inl (Out_of_bounds x i))"

definition write_elem :: "array_id \<Rightarrow> nat \<Rightarrow> float32 \<Rightarrow> machine \<Rightarrow> unit outcome" where
  "write_elem x i v s =
     (if i < length (mem s x) then
        Inr ((), s\<lparr>mem := (mem s)(x := (mem s x)[i := Some v]),
                   accesses := accesses s @ [Write x i]\<rparr>)
      else Inl (Out_of_bounds x i))"

definition put_str :: "string \<Rightarrow> machine \<Rightarrow> machine" where
  "put_str t s = s\<lparr>cout := cout s @ t\<rparr>"

section \<open>The SIMD primitives\<close>

text \<open>
  The SIMD library is used by the program and is not part of its source; its primitives
  are modelled by their contract. A \<^verbatim>\<open>float32<8>\<close> is a vector of 8 lanes, modelled as the
  list of its lanes. \<^verbatim>\<open>load_u(p)\<close> reads the 8 consecutive elements that start at \<^verbatim>\<open>p\<close>,
  with no alignment requirement; \<^verbatim>\<open>store_u(p, v)\<close> writes the lanes of \<^verbatim>\<open>v\<close> to the
  consecutive elements that start at \<^verbatim>\<open>p\<close>; \<^verbatim>\<open>+\<close> adds lane by lane. In the program
  \<^verbatim>\<open>p\<close> is always the start of an array.
\<close>

type_synonym float32x8 = "float32 list"

definition lanes :: nat where
  "lanes = 8"

fun load_lanes :: "array_id \<Rightarrow> nat \<Rightarrow> nat \<Rightarrow> machine \<Rightarrow> float32x8 outcome" where
  "load_lanes x i 0 s = Inr ([], s)"
| "load_lanes x i (Suc n) s =
     (case read_elem x i s of
        Inl e \<Rightarrow> Inl e
      | Inr (v, s1) \<Rightarrow>
          (case load_lanes x (Suc i) n s1 of
             Inl e \<Rightarrow> Inl e
           | Inr (vs, s2) \<Rightarrow> Inr (v # vs, s2)))"

definition load_u :: "array_id \<Rightarrow> machine \<Rightarrow> float32x8 outcome" where
  "load_u x s = load_lanes x 0 lanes s"

fun store_lanes :: "array_id \<Rightarrow> nat \<Rightarrow> float32x8 \<Rightarrow> machine \<Rightarrow> unit outcome" where
  "store_lanes x i [] s = Inr ((), s)"
| "store_lanes x i (v # vs) s =
     (case write_elem x i v s of
        Inl e \<Rightarrow> Inl e
      | Inr (u, s1) \<Rightarrow> store_lanes x (Suc i) vs s1)"

definition store_u :: "array_id \<Rightarrow> float32x8 \<Rightarrow> machine \<Rightarrow> unit outcome" where
  "store_u x v s = store_lanes x 0 v s"

definition vec_add :: "float32x8 \<Rightarrow> float32x8 \<Rightarrow> float32x8" where
  "vec_add va vb = map2 fadd va vb"

section \<open>The program\<close>

text \<open>
  The reporter loop \<^verbatim>\<open>for (int i = 0; i < 8; i++) { std::cout << c[i] << " "; }\<close>:
  one call is one test of the loop condition, followed by one iteration if it holds.
\<close>

function report_loop :: "int \<Rightarrow> machine \<Rightarrow> unit outcome" where
  "report_loop i s =
     (if i < 8 then
        (case read_elem Arr_c (nat i) s of
           Inl e \<Rightarrow> Inl e
         | Inr (v, s1) \<Rightarrow> report_loop (i + 1) (put_str '' '' (put_str (show_float v) s1)))
      else Inr ((), s))"
  by pat_completeness auto
termination
  by (relation "measure (\<lambda>(i, s). nat (8 - i))") auto

declare report_loop.simps [simp del]

text \<open>
  The body of \<^verbatim>\<open>main\<close>, statement by statement, with the two initialiser lists as
  parameters. An array declared with an initialiser list has as many elements as the list.
\<close>

definition main_with :: "float32 list \<Rightarrow> float32 list \<Rightarrow> machine \<Rightarrow> int outcome" where
  "main_with a_init b_init s0 =
     (let s1 = declare_array Arr_a (map Some a_init) s0;
          s2 = declare_array Arr_b (map Some b_init) s1;
          s3 = declare_array Arr_c (replicate 8 None) s2
      in case load_u Arr_a s3 of
           Inl e \<Rightarrow> Inl e
         | Inr (vec_a, s4) \<Rightarrow>
             (case load_u Arr_b s4 of
                Inl e \<Rightarrow> Inl e
              | Inr (vec_b, s5) \<Rightarrow>
                  (let vec_c = vec_add vec_a vec_b
                   in case store_u Arr_c vec_c s5 of
                        Inl e \<Rightarrow> Inl e
                      | Inr (u, s6) \<Rightarrow>
                          (case report_loop 0 (put_str ''Result: '' s6) of
                             Inl e \<Rightarrow> Inl e
                           | Inr (u', s7) \<Rightarrow> Inr (0, put_str [CHR 0x0A] s7)))))"

text \<open>The initialisers of the source: \<^verbatim>\<open>{1.0f, ..., 8.0f}\<close> and \<^verbatim>\<open>{8.0f, ..., 1.0f}\<close>.\<close>

definition a_init :: "float32 list" where
  "a_init = map float_of_nat [1, 2, 3, 4, 5, 6, 7, 8]"

definition b_init :: "float32 list" where
  "b_init = map float_of_nat [8, 7, 6, 5, 4, 3, 2, 1]"

definition main :: "machine \<Rightarrow> int outcome" where
  "main s0 = main_with a_init b_init s0"

text \<open>
  A run of the executable with an argument vector and an environment: the system starts
  \<^verbatim>\<open>int main()\<close> on the machine that holds them.
\<close>

definition run :: "string list \<Rightarrow> (string \<times> string) list \<Rightarrow> int outcome" where
  "run argv envp = main (startup argv envp)"

text \<open>What an observer of the process sees: the exit status and the standard output.\<close>

definition exit_status :: "int outcome \<Rightarrow> int option" where
  "exit_status r = (case r of Inl e \<Rightarrow> None | Inr (rc, s) \<Rightarrow> Some rc)"

definition stdout_text :: "int outcome \<Rightarrow> string option" where
  "stdout_text r = (case r of Inl e \<Rightarrow> None | Inr (rc, s) \<Rightarrow> Some (cout s))"

definition array_after :: "array_id \<Rightarrow> int outcome \<Rightarrow> float32 option list option" where
  "array_after x r = (case r of Inl e \<Rightarrow> None | Inr (rc, s) \<Rightarrow> Some (mem s x))"

section \<open>What the spec says about the run\<close>

text \<open>
  The reporter's contract in the spec's words: the literal prefix \<^verbatim>\<open>Result: \<close>, then each
  element converted and followed by a single space, then a newline.
\<close>

definition report_text :: "float32 list \<Rightarrow> string" where
  "report_text cs = concat (map (\<lambda>v. show_float v @ '' '') cs)"

definition report_line :: "float32 list \<Rightarrow> string" where
  "report_line cs = ''Result: '' @ report_text cs @ [CHR 0x0A]"

text \<open>
  The state in which \<^verbatim>\<open>main\<close> is expected to return when both initialisers have 8
  elements: the three arrays, the text on the stream and the accesses in program order.
\<close>

definition final_state :: "float32 list \<Rightarrow> float32 list \<Rightarrow> machine \<Rightarrow> machine" where
  "final_state a b s0 =
     s0\<lparr>mem := (mem s0)(Arr_a := map Some a, Arr_b := map Some b,
                          Arr_c := map Some (vec_add a b)),
         cout := cout s0 @ report_line (vec_add a b),
         accesses := accesses s0 @ map (Read Arr_a) [0..<8] @ map (Read Arr_b) [0..<8]
                     @ map (Write Arr_c) [0..<8] @ map (Read Arr_c) [0..<8]\<rparr>"

text \<open>
  Rounding to nearest, ties to even, in the words of IEEE-754: the result is the
  representable value nearest to the exact result \<open>r\<close>; if two are equally near, the one
  with the even significand; a result of magnitude \<open>2 ^ 127 * (2 - 2 powr -24)\<close> or more
  rounds to the infinity of the same sign. A nonzero result keeps the sign of \<open>r\<close>.
\<close>

definition overflow_threshold :: rat where
  "overflow_threshold = 2 ^ 128 - 2 ^ 103"

definition nearest_even :: "rat \<Rightarrow> float32 \<Rightarrow> bool" where
  "nearest_even r z =
     (if overflow_threshold \<le> \<bar>r\<bar> then is_inf z \<and> sign_bit z = (r < 0)
      else is_finite z
         \<and> (r \<noteq> 0 \<longrightarrow> sign_bit z = (r < 0))
         \<and> (\<forall>w. is_finite w \<longrightarrow> \<bar>valof z - r\<bar> \<le> \<bar>valof w - r\<bar>)
         \<and> (\<forall>w. is_finite w \<and> valof w \<noteq> valof z \<and> \<bar>valof w - r\<bar> = \<bar>valof z - r\<bar>
                \<longrightarrow> even (frac_field z)))"


text \<open>Selecting entries of the access log.\<close>

fun is_write :: "access \<Rightarrow> bool" where
  "is_write (Write x i) = True"
| "is_write (Read x i) = False"

fun array_of :: "access \<Rightarrow> array_id" where
  "array_of (Write x i) = x"
| "array_of (Read x i) = x"

fun index_of :: "access \<Rightarrow> nat" where
  "index_of (Write x i) = i"
| "index_of (Read x i) = i"

definition on_array :: "array_id \<Rightarrow> access \<Rightarrow> bool" where
  "on_array x e = (array_of e = x)"

definition in_bounds :: "machine \<Rightarrow> access \<Rightarrow> bool" where
  "in_bounds s e = (index_of e < length (mem s (array_of e)))"

subsection \<open>The regular expression of the output line\<close>

text \<open>
  The spec gives the output line as \<^verbatim>\<open>^Result:( -?[0-9]+(\.[0-9]+)?)+ ?\n$\<close>. Regular
  expressions are matched by derivatives: \<open>deriv c r\<close> matches what \<open>r\<close> matches after a
  leading \<open>c\<close>. The anchors \<^verbatim>\<open>^\<close> and \<^verbatim>\<open>$\<close> make the match one of the whole text.
\<close>

datatype regex =
    Fail
  | Empty
  | One_of "char list"
  | Then regex regex
  | Or regex regex
  | Many regex

fun nullable :: "regex \<Rightarrow> bool" where
  "nullable Fail = False"
| "nullable Empty = True"
| "nullable (One_of cs) = False"
| "nullable (Then r s) = (nullable r \<and> nullable s)"
| "nullable (Or r s) = (nullable r \<or> nullable s)"
| "nullable (Many r) = True"

fun deriv :: "char \<Rightarrow> regex \<Rightarrow> regex" where
  "deriv c Fail = Fail"
| "deriv c Empty = Fail"
| "deriv c (One_of cs) = (if c \<in> set cs then Empty else Fail)"
| "deriv c (Then r s) =
     (if nullable r then Or (Then (deriv c r) s) (deriv c s) else Then (deriv c r) s)"
| "deriv c (Or r s) = Or (deriv c r) (deriv c s)"
| "deriv c (Many r) = Then (deriv c r) (Many r)"

fun matches :: "regex \<Rightarrow> string \<Rightarrow> bool" where
  "matches r [] = nullable r"
| "matches r (c # cs) = matches (deriv c r) cs"

text \<open>
  What a regular expression means: the set of texts it denotes. \<open>matches\<close> decides
  membership (lemma \<open>matches_lang\<close> below).
\<close>

inductive_set repeats :: "string set \<Rightarrow> string set" for A :: "string set" where
  none: "[] \<in> repeats A"
| more: "u \<in> A \<Longrightarrow> v \<in> repeats A \<Longrightarrow> u @ v \<in> repeats A"

fun lang :: "regex \<Rightarrow> string set" where
  "lang Fail = {}"
| "lang Empty = {[]}"
| "lang (One_of cs) = {[c] | c. c \<in> set cs}"
| "lang (Then r s) = {u @ v | u v. u \<in> lang r \<and> v \<in> lang s}"
| "lang (Or r s) = lang r \<union> lang s"
| "lang (Many r) = repeats (lang r)"

definition some_re :: "regex \<Rightarrow> regex" where
  "some_re r = Then r (Many r)"

definition opt_re :: "regex \<Rightarrow> regex" where
  "opt_re r = Or r Empty"

fun lit_re :: "string \<Rightarrow> regex" where
  "lit_re [] = Empty"
| "lit_re (c # cs) = Then (One_of [c]) (lit_re cs)"

definition digit_re :: regex where
  "digit_re = One_of ''0123456789''"

text \<open>\<^verbatim>\<open>-?[0-9]+(\.[0-9]+)?\<close>\<close>

definition number_re :: regex where
  "number_re =
     Then (opt_re (One_of ''-''))
       (Then (some_re digit_re) (opt_re (Then (One_of ''.'') (some_re digit_re))))"

text \<open>\<^verbatim>\<open>Result:( -?[0-9]+(\.[0-9]+)?)+ ?\n\<close>\<close>

definition line_re :: regex where
  "line_re =
     Then (lit_re ''Result:'')
       (Then (some_re (Then (One_of '' '') number_re))
          (Then (opt_re (One_of '' '')) (One_of [CHR 0x0A])))"

text \<open>The fields of a line: the maximal runs of characters other than space and newline.\<close>

fun fields_from :: "string \<Rightarrow> string \<Rightarrow> string list" where
  "fields_from cur [] = (if cur = [] then [] else [cur])"
| "fields_from cur (c # cs) =
     (if c = CHR '' '' \<or> c = CHR 0x0A
      then (if cur = [] then fields_from [] cs else cur # fields_from [] cs)
      else fields_from (cur @ [c]) cs)"

definition fields :: "string \<Rightarrow> string list" where
  "fields s = fields_from [] s"

definition numeric_fields :: "string \<Rightarrow> string list" where
  "numeric_fields s = filter (matches number_re) (fields s)"

section \<open>Evaluating the float model\<close>

lemma bit_length_0: "bit_length 0 = 0"
  by (simp add: bit_length.simps)

lemma bit_length_1: "bit_length 1 = 1"
  by (simp add: bit_length.simps)

lemma bit_length_Suc_0: "bit_length (Suc 0) = 1"
  by (simp add: bit_length.simps)

lemma bit_length_Bit0: "bit_length (numeral (Num.Bit0 k)) = 1 + bit_length (numeral k)"
  by (subst bit_length.simps) simp

lemma bit_length_Bit1: "bit_length (numeral (Num.Bit1 k)) = 1 + bit_length (numeral k)"
  by (subst bit_length.simps) simp

lemmas bit_length_numeral =
  bit_length_0 bit_length_1 bit_length_Suc_0 bit_length_Bit0 bit_length_Bit1

lemmas float_fields =
  is_nan_def is_inf_def is_finite_def scaled_def magnitude_def exp_field_def frac_field_def
  sign_bit_def

lemmas float_eval =
  fadd_def float_of_nat_def encode_def round_mag_def inf_bits_def float_fields Let_def

lemma a_init_bits:
  "a_init = [0x3F800000, 0x40000000, 0x40400000, 0x40800000,
             0x40A00000, 0x40C00000, 0x40E00000, 0x41000000]"
  by (simp add: a_init_def float_eval bit_length_numeral)

lemma b_init_bits:
  "b_init = [0x41000000, 0x40E00000, 0x40C00000, 0x40A00000,
             0x40800000, 0x40400000, 0x40000000, 0x3F800000]"
  by (simp add: b_init_def float_eval bit_length_numeral)

lemma nine_bits: "float_of_nat 9 = 0x41100000"
  by (simp add: float_eval bit_length_numeral)

lemma length_a_init: "length a_init = 8"
  by (simp add: a_init_def)

lemma length_b_init: "length b_init = 8"
  by (simp add: b_init_def)

lemma sum_bits:
  "vec_add a_init b_init =
     [0x41100000, 0x41100000, 0x41100000, 0x41100000,
      0x41100000, 0x41100000, 0x41100000, 0x41100000]"
  unfolding a_init_bits b_init_bits
  by (simp add: vec_add_def float_eval bit_length_numeral)

lemma valof_a_init: "map valof a_init = [1, 2, 3, 4, 5, 6, 7, 8]"
  unfolding a_init_bits by (simp add: valof_def float_fields)

lemma valof_b_init: "map valof b_init = [8, 7, 6, 5, 4, 3, 2, 1]"
  unfolding b_init_bits by (simp add: valof_def float_fields)

lemma valof_nine: "valof 0x41100000 = 9"
  by (simp add: valof_def float_fields)

subsection \<open>Evaluating the formatter\<close>

lemma digits_of_small: "n < 10 \<Longrightarrow> digits_of n = [digit_char n]"
  by (subst digits_of.simps) simp

lemma digits_of_large:
  "10 \<le> n \<Longrightarrow> digits_of n = digits_of (n div 10) @ [digit_char (n mod 10)]"
  by (subst digits_of.simps) simp

lemma dec_exponent_from_stop:
  "X \<le> - 46 \<or> ge_pow10 m X \<Longrightarrow> dec_exponent_from m X = X"
  by (subst dec_exponent_from.simps) simp

lemma dec_exponent_from_step:
  "\<not> (X \<le> - 46 \<or> ge_pow10 m X) \<Longrightarrow> dec_exponent_from m X = dec_exponent_from m (X - 1)"
  by (subst dec_exponent_from.simps) simp

text \<open>The magnitude of 9.0 is \<open>9 * 2 ^ 149\<close> units.\<close>

lemma magnitude_nine:
  "magnitude 0x41100000 = 6422614617176819464762286862522728113722359808"
  by (simp add: float_fields)

lemma dec_exponent_nine:
  "dec_exponent 6422614617176819464762286862522728113722359808 = 0"
  by (simp add: dec_exponent_def dec_exponent_from_stop dec_exponent_from_step ge_pow10_def)

lemma sig_digits_nine:
  "sig_digits 6422614617176819464762286862522728113722359808 0 = 900000"
  by (simp add: sig_digits_def round_div_def)

lemma fixed_style_nine: "fixed_style 900000 0 = ''9''"
  by (simp add: fixed_style_def digits_of_small digits_of_large digit_char_def strip_zeros_def
      pad_zeros_def)

lemma fmt_g_nine: "fmt_g 6422614617176819464762286862522728113722359808 = ''9''"
  by (simp add: fmt_g_def dec_exponent_nine sig_digits_nine fixed_style_nine)

lemma show_float_nine: "show_float 0x41100000 = ''9''"
  unfolding show_float_def magnitude_nine
  by (simp add: fmt_g_nine is_nan_def is_inf_def exp_field_def frac_field_def sign_bit_def)

lemma report_line_nines:
  "report_line [0x41100000, 0x41100000, 0x41100000, 0x41100000,
                0x41100000, 0x41100000, 0x41100000, 0x41100000]
   = ''Result: 9 9 9 9 9 9 9 9 '' @ [CHR 0x0A]"
  by (simp add: report_line_def report_text_def show_float_nine)

lemma line_matches:
  "matches line_re (''Result: 9 9 9 9 9 9 9 9 '' @ [CHR 0x0A])"
  by (simp add: line_re_def number_re_def digit_re_def some_re_def opt_re_def)

lemma line_numeric_fields:
  "numeric_fields (''Result: 9 9 9 9 9 9 9 9 '' @ [CHR 0x0A]) =
     [''9'', ''9'', ''9'', ''9'', ''9'', ''9'', ''9'', ''9'']"
  by (simp add: numeric_fields_def fields_def number_re_def digit_re_def some_re_def opt_re_def)

subsection \<open>Sample values of the two models\<close>

lemmas format_eval =
  show_float_def fmt_g_def dec_exponent_def dec_exponent_from_stop dec_exponent_from_step
  ge_pow10_def sig_digits_def round_div_def fixed_style_def exp_style_def
  digits_of_small digits_of_large digit_char_def strip_zeros_def pad_zeros_def

lemma show_float_samples:
  "show_float 0x3FC00000 = ''1.5''"
  "show_float 0x3DCCCCCD = ''0.1''"
  "show_float 0x501502F9 = ''1e+10''"
  "show_float 0xC2F6E979 = ''-123.456''"
  "show_float 0x4996B438 = ''1.23457e+06''"
  "show_float 0x7F800000 = ''inf''"
  "show_float 0x80000000 = ''-0''"
  by (simp_all add: float_fields format_eval Let_def)

lemma fadd_samples:
  "fadd 0x3F800000 0x33800000 = 0x3F800000"
  "fadd 0x3F800001 0x33800000 = 0x3F800002"
  "fadd 0x7F7FFFFF 0x7F7FFFFF = 0x7F800000"
  "fadd 0x007FFFFF 0x00000001 = 0x00800000"
  "fadd 0xBF800000 0x3F800000 = 0x00000000"
  "fadd 0x80000000 0x80000000 = 0x80000000"
  "fadd 0x7F800000 0xFF800000 = default_nan"
  by (simp_all add: float_eval bit_length_numeral default_nan_def)


text \<open>
  The number pattern of the output line covers the fixed style only: the exponent style
  and the texts for infinities and NaNs are outside it.
\<close>

lemma exponent_style_not_a_number:
  "\<not> matches number_re ''1e+10''" "\<not> matches number_re ''inf''" "matches number_re ''-123.456''"
  by (simp_all add: number_re_def digit_re_def some_re_def opt_re_def)

section \<open>Bit patterns and their fields\<close>




lemma length_vec_add: "length (vec_add a b) = min (length a) (length b)"
  by (simp add: vec_add_def)

lemma nth_vec_add:
  "i < length a \<Longrightarrow> i < length b \<Longrightarrow> vec_add a b ! i = fadd (a ! i) (b ! i)"
  by (simp add: vec_add_def)

section \<open>The addition rounds to nearest, ties to even\<close>

lemma bit_length_upper: "n < 2 ^ bit_length n"
proof (induction n rule: bit_length.induct)
  case (1 n)
  show ?case
  proof (cases "n = 0")
    case True
    then show ?thesis by (simp add: bit_length_0)
  next
    case False
    then have "n div 2 < 2 ^ bit_length (n div 2)" using 1 by simp
    then have "n < 2 * 2 ^ bit_length (n div 2)" by linarith
    moreover have "bit_length n = Suc (bit_length (n div 2))"
      using False by (subst bit_length.simps) simp
    ultimately show ?thesis by simp
  qed
qed

lemma bit_length_lower: "n \<noteq> 0 \<Longrightarrow> 2 ^ (bit_length n - 1) \<le> n"
proof (induction n rule: bit_length.induct)
  case (1 n)
  have bl: "bit_length n = Suc (bit_length (n div 2))"
    using "1.prems" by (subst bit_length.simps) simp
  show ?case
  proof (cases "n div 2 = 0")
    case True
    then have "bit_length (n div 2) = 0" by (simp add: bit_length_0)
    then show ?thesis using bl "1.prems" by simp
  next
    case False
    then have "2 ^ (bit_length (n div 2) - 1) \<le> n div 2" using 1 by simp
    moreover have "bit_length (n div 2) \<noteq> 0"
      using False by (subst bit_length.simps) simp
    then have "(2::nat) ^ bit_length (n div 2) = 2 * 2 ^ (bit_length (n div 2) - 1)"
      by (cases "bit_length (n div 2)") simp_all
    ultimately show ?thesis using bl by simp
  qed
qed

lemma frac_field_less: "frac_field w < 2 ^ 23"
proof -
  have "unat (take_bit 23 w) = take_bit 23 (unat w)"
    by (simp add: unsigned_take_bit_eq)
  then show ?thesis by (simp add: frac_field_def take_bit_eq_mod)
qed

lemma exp_field_less: "exp_field w < 2 ^ 8"
proof -
  have "unat (take_bit 8 (drop_bit 23 w)) = take_bit 8 (unat (drop_bit 23 w))"
    by (simp add: unsigned_take_bit_eq)
  then show ?thesis by (simp add: exp_field_def take_bit_eq_mod)
qed

lemma low_bits_div: "low_bits w div 2 ^ 23 = exp_field w"
  using frac_field_less [of w] by (simp add: low_bits_def)

lemma low_bits_mod: "low_bits w mod 2 ^ 23 = frac_field w"
  using frac_field_less [of w] by (simp add: low_bits_def)

lemma magnitude_bits_value: "magnitude w = bits_value (low_bits w)"
  unfolding bits_value_def low_bits_div low_bits_mod magnitude_def by simp

lemma bits_value_Suc: "bits_value (Suc j) = bits_value j + 2 ^ (j div 2 ^ 23 - 1)"
proof -
  define e where "e = j div 2 ^ 23"
  define f where "f = j mod 2 ^ 23"
  have j: "j = e * 2 ^ 23 + f" and f: "f < 2 ^ 23"
    by (simp_all add: e_def f_def)
  show ?thesis
  proof (cases "Suc f = 2 ^ 23")
    case True
    then have s: "Suc j = (Suc e) * 2 ^ 23" using j by simp
    have sd: "Suc j div 2 ^ 23 = Suc e" "Suc j mod 2 ^ 23 = 0"
      unfolding s by simp_all
    have fv: "f = 2 ^ 23 - 1" using True by simp
    show ?thesis
    proof (cases e)
      case 0
      then show ?thesis
        unfolding bits_value_def sd e_def [symmetric] f_def [symmetric] using fv by simp
    next
      case (Suc e')
      then show ?thesis
        unfolding bits_value_def sd e_def [symmetric] f_def [symmetric] using fv
        by (simp add: algebra_simps)
    qed
  next
    case False
    then have lt: "Suc f < 2 ^ 23" using f by linarith
    have s: "Suc j = e * 2 ^ 23 + Suc f" using j by simp
    have sd: "Suc j div 2 ^ 23 = e" "Suc j mod 2 ^ 23 = Suc f"
      unfolding s using lt by simp_all
    show ?thesis
      unfolding bits_value_def sd e_def [symmetric] f_def [symmetric]
      by (simp add: algebra_simps)
  qed
qed

lemma bits_value_strict_mono: "i < j \<Longrightarrow> bits_value i < bits_value j"
proof (induction j)
  case 0
  then show ?case by simp
next
  case (Suc j)
  have step: "bits_value j < bits_value (Suc j)"
    by (simp add: bits_value_Suc)
  show ?case
  proof (cases "i = j")
    case True
    then show ?thesis using step by simp
  next
    case False
    then have "i < j" using Suc.prems by simp
    then show ?thesis using Suc.IH step by simp
  qed
qed

lemma bits_value_mono: "i \<le> j \<Longrightarrow> bits_value i \<le> bits_value j"
  using bits_value_strict_mono [of i j] by (cases "i = j") simp_all

lemma bits_value_small: "q < 2 ^ 24 \<Longrightarrow> bits_value q = q"
proof (cases "q < 2 ^ 23")
  case True
  then show ?thesis by (simp add: bits_value_def)
next
  case False
  assume "q < 2 ^ 24"
  then have q: "q = 1 * 2 ^ 23 + (q - 2 ^ 23)" "q - 2 ^ 23 < 2 ^ 23" using False by simp_all
  have "q div 2 ^ 23 = 1" "q mod 2 ^ 23 = q - 2 ^ 23"
    using q by (simp_all add: div_nat_eqI mod_nat_eqI)
  then show ?thesis using False by (simp add: bits_value_def)
qed

lemma bits_value_normal:
  assumes "2 ^ 23 \<le> q" "q \<le> 2 ^ 24"
  shows "bits_value (s * 2 ^ 23 + q) = q * 2 ^ s"
proof (cases "q = 2 ^ 24")
  case True
  have "s * 2 ^ 23 + q = (s + 2) * 2 ^ 23" using True by simp
  then have "(s * 2 ^ 23 + q) div 2 ^ 23 = s + 2" "(s * 2 ^ 23 + q) mod 2 ^ 23 = 0"
    by simp_all
  then show ?thesis using True by (simp add: bits_value_def)
next
  case False
  then have q: "q - 2 ^ 23 < 2 ^ 23" using assms by simp
  have "s * 2 ^ 23 + q = (s + 1) * 2 ^ 23 + (q - 2 ^ 23)" using assms by simp
  then have "(s * 2 ^ 23 + q) div 2 ^ 23 = s + 1" "(s * 2 ^ 23 + q) mod 2 ^ 23 = q - 2 ^ 23"
    using q by (simp_all add: div_nat_eqI mod_nat_eqI)
  then show ?thesis using assms by (simp add: bits_value_def)
qed


lemma round_mag_split:
  obtains sh q r where
    "n = q * 2 ^ sh + r" "r < 2 ^ sh" "q < 2 ^ 24" "sh = 0 \<or> 2 ^ 23 \<le> q"
    "sh = bit_length n - 24"
    "round_mag n = sh * 2 ^ 23 + (if 2 ^ sh < 2 * r \<or> (2 * r = 2 ^ sh \<and> odd q) then q + 1 else q)"
proof -
  define sh where "sh = bit_length n - 24"
  define q where "q = n div 2 ^ sh"
  define r where "r = n mod 2 ^ sh"
  have n: "n = q * 2 ^ sh + r" unfolding q_def r_def by (rule div_mult_mod_eq [symmetric])
  have r: "r < 2 ^ sh" by (simp add: r_def)
  have "n < 2 ^ (sh + 24)"
  proof -
    have "bit_length n \<le> sh + 24" by (simp add: sh_def)
    then have "(2::nat) ^ bit_length n \<le> 2 ^ (sh + 24)"
      by (intro power_increasing) simp_all
    then show ?thesis using bit_length_upper [of n] by linarith
  qed
  then have "n < 2 ^ 24 * 2 ^ sh" by (simp add: power_add mult.commute)
  then have q: "q < 2 ^ 24" unfolding q_def by (simp add: less_mult_imp_div_less)
  have lo: "2 ^ 23 \<le> q" if "0 < sh"
  proof -
    have bl: "bit_length n = sh + 24" using that by (simp add: sh_def)
    then have "n \<noteq> 0" by (cases "n = 0") (simp_all add: bit_length_0)
    then have "2 ^ (bit_length n - 1) \<le> n" by (rule bit_length_lower)
    then have "2 ^ 23 * 2 ^ sh \<le> n" using bl by (simp add: power_add mult.commute)
    then show ?thesis unfolding q_def by (simp add: less_eq_div_iff_mult_less_eq)
  qed
  have rm: "round_mag n = sh * 2 ^ 23 + (if 2 ^ sh < 2 * r \<or> (2 * r = 2 ^ sh \<and> odd q) then q + 1 else q)"
    by (simp add: round_mag_def Let_def sh_def q_def r_def)
  have lo': "sh = 0 \<or> 2 ^ 23 \<le> q" using lo by (cases "sh = 0") simp_all
  show thesis by (rule that [OF n r q lo' sh_def rm])
qed

lemma nearest_in_bracket:
  fixes lo r P k :: int
  assumes "0 \<le> r" "r < P" "k \<le> lo \<or> lo + P \<le> k"
  shows "2 * r \<le> P \<Longrightarrow> \<bar>lo - (lo + r)\<bar> \<le> \<bar>k - (lo + r)\<bar>"
    and "P \<le> 2 * r \<Longrightarrow> \<bar>lo + P - (lo + r)\<bar> \<le> \<bar>k - (lo + r)\<bar>"
  using assms by linarith+

lemma strictly_nearest_in_bracket:
  fixes lo r P k :: int
  assumes "0 \<le> r" "r < P" "k \<le> lo \<or> lo + P \<le> k"
  shows "2 * r < P \<Longrightarrow> k \<noteq> lo \<Longrightarrow> \<bar>lo - (lo + r)\<bar> < \<bar>k - (lo + r)\<bar>"
    and "P < 2 * r \<Longrightarrow> k \<noteq> lo + P \<Longrightarrow> \<bar>lo + P - (lo + r)\<bar> < \<bar>k - (lo + r)\<bar>"
  using assms by linarith+

text \<open>
  The two candidates of a rounding: with \<open>sh > 0\<close> the magnitude \<open>n = q * 2 ^ sh + r\<close>
  lies between two neighbouring representable magnitudes, and every other one is outside.
\<close>

lemma round_mag_bracket:
  assumes "2 ^ 23 \<le> q" "q < 2 ^ 24"
  shows "bits_value (sh * 2 ^ 23 + q) = q * 2 ^ sh"
    and "bits_value (sh * 2 ^ 23 + q + 1) = q * 2 ^ sh + 2 ^ sh"
    and "bits_value j \<le> q * 2 ^ sh \<or> q * 2 ^ sh + 2 ^ sh \<le> bits_value j"
    and "bits_value j = q * 2 ^ sh \<longleftrightarrow> j = sh * 2 ^ 23 + q"
    and "bits_value j = q * 2 ^ sh + 2 ^ sh \<longleftrightarrow> j = sh * 2 ^ 23 + q + 1"
proof -
  define L where "L = sh * 2 ^ 23 + q"
  show lower: "bits_value (sh * 2 ^ 23 + q) = q * 2 ^ sh"
    using assms bits_value_normal [of q sh] by simp
  have "sh * 2 ^ 23 + q + 1 = sh * 2 ^ 23 + (q + 1)" by simp
  then show upper: "bits_value (sh * 2 ^ 23 + q + 1) = q * 2 ^ sh + 2 ^ sh"
    using assms bits_value_normal [of "q + 1" sh] by (simp add: algebra_simps)
  show "bits_value j \<le> q * 2 ^ sh \<or> q * 2 ^ sh + 2 ^ sh \<le> bits_value j"
  proof (cases "j \<le> L")
    case True
    then show ?thesis using bits_value_mono [of j L] lower by (simp add: L_def)
  next
    case False
    then have "L + 1 \<le> j" by simp
    then show ?thesis using bits_value_mono [of "L + 1" j] upper by (simp add: L_def)
  qed
  show "bits_value j = q * 2 ^ sh \<longleftrightarrow> j = sh * 2 ^ 23 + q"
    using bits_value_strict_mono [of j L] bits_value_strict_mono [of L j] lower
    by (cases j L rule: linorder_cases) (auto simp add: L_def)
  show "bits_value j = q * 2 ^ sh + 2 ^ sh \<longleftrightarrow> j = sh * 2 ^ 23 + q + 1"
    using bits_value_strict_mono [of j "L + 1"] bits_value_strict_mono [of "L + 1" j] upper
    by (cases j "L + 1" rule: linorder_cases) (auto simp add: L_def)
qed

lemma round_mag_nearest:
  "\<bar>int (bits_value (round_mag n)) - int n\<bar> \<le> \<bar>int (bits_value j) - int n\<bar>"
proof -
  obtain sh q r where s: "n = q * 2 ^ sh + r" "r < 2 ^ sh" "q < 2 ^ 24"
      "sh = 0 \<or> 2 ^ 23 \<le> q"
      "round_mag n = sh * 2 ^ 23 + (if 2 ^ sh < 2 * r \<or> (2 * r = 2 ^ sh \<and> odd q) then q + 1 else q)"
    by (rule round_mag_split [of n]) blast
  show ?thesis
  proof (cases "sh = 0")
    case True
    then have "r = 0" "n = q" using s by simp_all
    then have "round_mag n = n" using s True by simp
    then show ?thesis using s \<open>n = q\<close> bits_value_small [of q] by simp
  next
    case False
    then have q: "2 ^ 23 \<le> q" using s by simp
    note br = round_mag_bracket [OF q s(3)]
    define lo P k ri where "lo = int (q * 2 ^ sh)" and "P = int (2 ^ sh)"
      and "k = int (bits_value j)" and "ri = int r"
    have n: "int n = lo + ri" using s(1) by (simp add: lo_def ri_def)
    have side: "0 \<le> ri" "ri < P" "k \<le> lo \<or> lo + P \<le> k"
      using s(2) br(3) [where sh = sh and j = j] unfolding lo_def P_def k_def ri_def
      by linarith+
    show ?thesis
    proof (cases "2 ^ sh < 2 * r \<or> (2 * r = 2 ^ sh \<and> odd q)")
      case True
      then have "round_mag n = sh * 2 ^ 23 + q + 1" using s(5) by simp
      then have m: "int (bits_value (round_mag n)) = lo + P"
        using br(2) by (simp add: lo_def P_def)
      have "P \<le> 2 * ri" using True unfolding P_def ri_def by linarith
      then show ?thesis
        unfolding m n k_def [symmetric] using nearest_in_bracket(2) [OF side] by simp
    next
      case False
      then have "round_mag n = sh * 2 ^ 23 + q" using s(5) by simp
      then have m: "int (bits_value (round_mag n)) = lo"
        using br(1) by (simp add: lo_def)
      have "2 * ri \<le> P" using False unfolding P_def ri_def by linarith
      then show ?thesis
        unfolding m n k_def [symmetric] using nearest_in_bracket(1) [OF side] by simp
    qed
  qed
qed

lemma round_mag_tie_even:
  assumes "bits_value j \<noteq> bits_value (round_mag n)"
    and "\<bar>int (bits_value j) - int n\<bar> = \<bar>int (bits_value (round_mag n)) - int n\<bar>"
  shows "even (round_mag n)"
proof -
  obtain sh q r where s: "n = q * 2 ^ sh + r" "r < 2 ^ sh" "q < 2 ^ 24"
      "sh = 0 \<or> 2 ^ 23 \<le> q"
      "round_mag n = sh * 2 ^ 23 + (if 2 ^ sh < 2 * r \<or> (2 * r = 2 ^ sh \<and> odd q) then q + 1 else q)"
    by (rule round_mag_split [of n]) blast
  show ?thesis
  proof (cases "sh = 0")
    case True
    then have "r = 0" "n = q" using s by simp_all
    then have "round_mag n = n" using s True by simp
    then have "bits_value (round_mag n) = n" using s \<open>n = q\<close> bits_value_small [of q] by simp
    then show ?thesis using assms by simp
  next
    case False
    then have q: "2 ^ 23 \<le> q" using s by simp
    note br = round_mag_bracket [OF q s(3)]
    define lo P k ri where "lo = int (q * 2 ^ sh)" and "P = int (2 ^ sh)"
      and "k = int (bits_value j)" and "ri = int r"
    have n: "int n = lo + ri" using s(1) by (simp add: lo_def ri_def)
    have side: "0 \<le> ri" "ri < P" "k \<le> lo \<or> lo + P \<le> k"
      using s(2) br(3) [where sh = sh and j = j] unfolding lo_def P_def k_def ri_def
      by linarith+
    have ev: "even (sh * 2 ^ 23)" by simp
    consider "2 * r < 2 ^ sh" | "2 ^ sh < 2 * r" | "2 * r = 2 ^ sh" by linarith
    then show ?thesis
    proof cases
      case 1
      then have rm: "round_mag n = sh * 2 ^ 23 + q" using s(5) by simp
      then have m: "int (bits_value (round_mag n)) = lo"
        using br(1) by (simp add: lo_def)
      have "k \<noteq> lo" using assms(1) m by (simp add: k_def)
      moreover have "2 * ri < P" using 1 unfolding P_def ri_def by linarith
      ultimately have "\<bar>lo - (lo + ri)\<bar> < \<bar>k - (lo + ri)\<bar>"
        using strictly_nearest_in_bracket(1) [OF side] by simp
      then show ?thesis using assms(2) unfolding m n k_def [symmetric] by simp
    next
      case 2
      then have rm: "round_mag n = sh * 2 ^ 23 + q + 1" using s(5) by simp
      then have m: "int (bits_value (round_mag n)) = lo + P"
        using br(2) by (simp add: lo_def P_def)
      have "k \<noteq> lo + P" using assms(1) m by (simp add: k_def)
      moreover have "P < 2 * ri" using 2 unfolding P_def ri_def by linarith
      ultimately have "\<bar>lo + P - (lo + ri)\<bar> < \<bar>k - (lo + ri)\<bar>"
        using strictly_nearest_in_bracket(2) [OF side] by simp
      then show ?thesis using assms(2) unfolding m n k_def [symmetric] by simp
    next
      case 3
      then have "round_mag n = sh * 2 ^ 23 + (if odd q then q + 1 else q)"
        using s(5) by simp
      then show ?thesis using ev by simp
    qed
  qed
qed

lemma fields_of_word_of_nat:
  fixes m :: nat
  assumes "m < 2 ^ 31"
  shows "frac_field (word_of_nat m) = m mod 2 ^ 23"
    and "exp_field (word_of_nat m) = m div 2 ^ 23"
    and "\<not> sign_bit (word_of_nat m)"
proof -
  have u: "unat (word_of_nat m :: float32) = m"
    using assms by (simp add: unat_of_nat take_bit_eq_mod)
  have "unat (take_bit 23 (word_of_nat m :: float32)) = take_bit 23 (unat (word_of_nat m :: float32))"
    by (rule unsigned_take_bit_eq)
  then show "frac_field (word_of_nat m) = m mod 2 ^ 23"
    unfolding frac_field_def u by (simp only: take_bit_eq_mod)
  have "m div 2 ^ 23 < 2 ^ 8" using assms by (simp add: less_mult_imp_div_less)
  moreover have "unat (take_bit 8 (drop_bit 23 (word_of_nat m :: float32)))
      = take_bit 8 (drop_bit 23 (unat (word_of_nat m :: float32)))"
    by (simp only: unsigned_take_bit_eq unat_drop_bit_eq)
  ultimately show "exp_field (word_of_nat m) = m div 2 ^ 23"
    unfolding exp_field_def u by (simp only: take_bit_eq_mod drop_bit_eq_div mod_less)
  have "m div 2 ^ 31 = 0" using assms by simp
  then have "\<not> bit m 31" by (simp add: bit_iff_odd)
  then show "\<not> sign_bit (word_of_nat m)"
    by (simp add: sign_bit_def bit_of_nat_iff)
qed

lemma fields_of_sign_or:
  fixes w :: float32
  shows "frac_field (0x80000000 OR w) = frac_field w"
    and "exp_field (0x80000000 OR w) = exp_field w"
    and "sign_bit (0x80000000 OR w)"
proof -
  have t: "take_bit 23 (0x80000000 :: float32) = 0"
    by (simp add: take_bit_eq_mod)
  show "frac_field (0x80000000 OR w) = frac_field w"
    by (simp add: frac_field_def t)
  have d: "take_bit 8 (drop_bit 23 (0x80000000 :: float32)) = 0"
    by (simp add: take_bit_eq_mod drop_bit_eq_div)
  show "exp_field (0x80000000 OR w) = exp_field w"
    by (simp add: exp_field_def d)
  have "bit (0x80000000 :: float32) 31"
    by (simp add: bit_iff_odd)
  then show "sign_bit (0x80000000 OR w)"
    by (simp add: sign_bit_def bit_or_iff)
qed

lemma fields_of_encode:
  assumes "m < inf_bits"
  shows "frac_field (encode neg m) = m mod 2 ^ 23"
    and "exp_field (encode neg m) = m div 2 ^ 23"
    and "sign_bit (encode neg m) = neg"
proof -
  have m: "m < 2 ^ 31" using assms by (simp add: inf_bits_def)
  note f = fields_of_word_of_nat [OF m]
  show "frac_field (encode neg m) = m mod 2 ^ 23"
    using assms f by (simp add: encode_def fields_of_sign_or)
  show "exp_field (encode neg m) = m div 2 ^ 23"
    using assms f by (simp add: encode_def fields_of_sign_or)
  show "sign_bit (encode neg m) = neg"
    using assms f by (simp add: encode_def fields_of_sign_or)
qed

lemma encode_finite:
  assumes "m < inf_bits"
  shows "is_finite (encode neg m)" and "magnitude (encode neg m) = bits_value m"
    and "scaled (encode neg m) = (if neg then - int (bits_value m) else int (bits_value m))"
proof -
  have "m div 2 ^ 23 < 255" using assms by (simp add: inf_bits_def less_mult_imp_div_less)
  then show "is_finite (encode neg m)"
    by (simp add: is_finite_def fields_of_encode [OF assms])
  show m: "magnitude (encode neg m) = bits_value m"
    by (simp add: magnitude_def bits_value_def fields_of_encode [OF assms])
  show "scaled (encode neg m) = (if neg then - int (bits_value m) else int (bits_value m))"
    by (simp only: scaled_def m fields_of_encode(3) [OF assms])
qed

lemma encode_overflow:
  assumes "inf_bits \<le> m"
  shows "is_inf (encode neg m)" and "sign_bit (encode neg m) = neg"
proof -
  have i: "inf_bits < 2 ^ 31" by (simp add: inf_bits_def)
  have e: "encode neg m = (if neg then 0x80000000 else 0) OR word_of_nat inf_bits"
    using assms by (simp add: encode_def)
  note f = fields_of_word_of_nat [OF i]
  have "inf_bits mod 2 ^ 23 = 0" "inf_bits div 2 ^ 23 = 255" by (simp_all add: inf_bits_def)
  then show "is_inf (encode neg m)"
    unfolding e using f by (simp add: is_inf_def fields_of_sign_or)
  show "sign_bit (encode neg m) = neg"
    unfolding e using f by (simp add: fields_of_sign_or)
qed

lemma round_mag_overflow_iff: "inf_bits \<le> round_mag n \<longleftrightarrow> 2 ^ 277 - 2 ^ 252 \<le> n"
proof -
  obtain sh q r where s: "n = q * 2 ^ sh + r" "r < 2 ^ sh" "q < 2 ^ 24"
      "sh = 0 \<or> 2 ^ 23 \<le> q" "sh = bit_length n - 24"
      "round_mag n = sh * 2 ^ 23 + (if 2 ^ sh < 2 * r \<or> (2 * r = 2 ^ sh \<and> odd q) then q + 1 else q)"
    by (rule round_mag_split [of n]) blast
  have rm_le: "round_mag n \<le> sh * 2 ^ 23 + q + 1" and rm_ge: "sh * 2 ^ 23 + q \<le> round_mag n"
    using s(6) by simp_all
  show ?thesis
  proof
    assume big: "2 ^ 277 - 2 ^ 252 \<le> n"
    have "276 < bit_length n"
    proof (rule ccontr)
      assume "\<not> 276 < bit_length n"
      then have "bit_length n \<le> 276" by simp
      then have "(2::nat) ^ bit_length n \<le> 2 ^ 276" by (intro power_increasing) simp_all
      then have "n < 2 ^ 276" using bit_length_upper [of n] by linarith
      then show False using big by simp
    qed
    then have sh: "253 \<le> sh" using s(5) by simp
    show "inf_bits \<le> round_mag n"
    proof (cases "sh = 253")
      case True
      have n: "n = q * 2 ^ 253 + r" "r < 2 ^ 253" using s(1,2) True by simp_all
      have "q = 2 ^ 24 - 1"
      proof (rule ccontr)
        assume "q \<noteq> 2 ^ 24 - 1"
        then have "q + 1 \<le> 2 ^ 24 - 1" using s(3) by simp
        then have "(q + 1) * 2 ^ 253 \<le> (2 ^ 24 - 1) * (2::nat) ^ 253" by (rule mult_le_mono1)
        then show False using n big by simp
      qed
      then have q: "q = 16777215" by simp
      have "2 ^ 252 \<le> r" using n(1) big unfolding q by simp
      then have "2 ^ sh \<le> 2 * r" unfolding True by simp
      moreover have "odd q" unfolding q by simp
      ultimately have "round_mag n = sh * 2 ^ 23 + q + 1" using s(6) by auto
      then show ?thesis unfolding True q by (simp add: inf_bits_def)
    next
      case False
      then have "254 \<le> sh" using sh by simp
      then have "254 * 2 ^ 23 \<le> sh * (2::nat) ^ 23" by (rule mult_le_mono1)
      moreover have "2 ^ 23 \<le> q" using s(4) sh by auto
      ultimately show ?thesis using rm_ge by (simp add: inf_bits_def)
    qed
  next
    assume ov: "inf_bits \<le> round_mag n"
    show "2 ^ 277 - 2 ^ 252 \<le> n"
    proof (rule ccontr)
      assume "\<not> 2 ^ 277 - 2 ^ 252 \<le> n"
      then have small: "n < 2 ^ 277 - 2 ^ 252" by simp
      have "bit_length n \<le> 277"
      proof (cases "n = 0")
        case True
        then show ?thesis by (simp add: bit_length_0)
      next
        case False
        then have "2 ^ (bit_length n - 1) \<le> n" by (rule bit_length_lower)
        then have "(2::nat) ^ (bit_length n - 1) < 2 ^ 277" using small by simp
        then have "bit_length n - 1 < 277" by (rule power_less_imp_less_exp [rotated]) simp
        then show ?thesis by simp
      qed
      then have sh: "sh \<le> 253" using s(5) by simp
      show False
      proof (cases "sh = 253")
        case True
        have n: "n = q * 2 ^ 253 + r" "r < 2 ^ 253" using s(1,2) True by simp_all
        show False
        proof (cases "q = 2 ^ 24 - 1")
          case True
          then have q: "q = 16777215" by simp
          have "r < 2 ^ 252" using n(1) small unfolding q by simp
          then have "\<not> (2 ^ sh < 2 * r \<or> (2 * r = 2 ^ sh \<and> odd q))"
            unfolding \<open>sh = 253\<close> by simp
          then have "round_mag n = sh * 2 ^ 23 + q" using s(6) by simp
          then show False using ov unfolding \<open>sh = 253\<close> q by (simp add: inf_bits_def)
        next
          case False
          then have "q + 1 < 2 ^ 24" using s(3) by simp
          then show False using ov rm_le unfolding True by (simp add: inf_bits_def)
        qed
      next
        case False
        then have "sh \<le> 252" using sh by simp
        then have "sh * 2 ^ 23 \<le> 252 * (2::nat) ^ 23" by (rule mult_le_mono1)
        then show False using ov rm_le s(3) by (simp add: inf_bits_def)
      qed
    qed
  qed
qed

lemma valof_dist:
  "\<bar>valof w - rat_of_int s / 2 ^ 149\<bar> = rat_of_int \<bar>scaled w - s\<bar> / 2 ^ 149"
proof -
  have "valof w - rat_of_int s / 2 ^ 149 = rat_of_int (scaled w - s) / 2 ^ 149"
    by (simp add: valof_def diff_divide_distrib)
  then show ?thesis by (simp only: abs_divide of_int_abs) simp
qed

lemma valof_eq_iff: "valof w = valof z \<longleftrightarrow> scaled w = scaled z"
  by (simp add: valof_def)

lemma bits_value_0: "bits_value 0 = 0"
  by (simp add: bits_value_def)

lemma finite_not_special: "is_finite w \<Longrightarrow> \<not> is_nan w \<and> \<not> is_inf w"
  by (simp add: is_finite_def is_nan_def is_inf_def)

lemma fadd_finite:
  assumes "is_finite x" "is_finite y"
  shows "fadd x y =
     (if scaled x + scaled y = 0 then encode (sign_bit x \<and> sign_bit y) 0
      else encode (scaled x + scaled y < 0) (round_mag (nat \<bar>scaled x + scaled y\<bar>)))"
  using finite_not_special [OF assms(1)] finite_not_special [OF assms(2)]
  by (simp add: fadd_def Let_def)

lemma inf_bits_pos: "0 < inf_bits"
  by (simp add: inf_bits_def)

text \<open>The integer core of the rounding theorem.\<close>

lemma round_nearest_signed:
  fixes s :: int
  assumes s: "s \<noteq> 0" and m: "m = round_mag (nat \<bar>s\<bar>)"
    and z: "scaled z = (if s < 0 then - int (bits_value m) else int (bits_value m))"
  shows "\<bar>scaled z - s\<bar> \<le> \<bar>scaled w - s\<bar>"
proof -
  define n where "n = nat \<bar>s\<bar>"
  define M where "M = int (bits_value m)"
  define k where "k = int (magnitude w)"
  have n: "int n = \<bar>s\<bar>" by (simp add: n_def)
  have near: "\<bar>M - int n\<bar> \<le> \<bar>k - int n\<bar>"
    unfolding M_def k_def m n_def magnitude_bits_value by (rule round_mag_nearest)
  have zero: "\<bar>M - int n\<bar> \<le> int n"
    using round_mag_nearest [of n 0] unfolding M_def m n_def by (simp add: bits_value_0)
  have k: "0 \<le> k" "scaled w = k \<or> scaled w = - k"
    by (simp_all add: k_def scaled_def)
  have zs: "scaled z = (if s < 0 then - M else M)" using z by (simp add: M_def)
  show ?thesis using near zero k zs n s by (auto split: if_splits)
qed

lemma round_tie_signed:
  fixes s :: int
  assumes s: "s \<noteq> 0" and m: "m = round_mag (nat \<bar>s\<bar>)"
    and z: "scaled z = (if s < 0 then - int (bits_value m) else int (bits_value m))"
    and w: "scaled w \<noteq> scaled z" "\<bar>scaled w - s\<bar> = \<bar>scaled z - s\<bar>"
  shows "even m"
proof -
  define n where "n = nat \<bar>s\<bar>"
  define M where "M = int (bits_value m)"
  define k where "k = int (magnitude w)"
  have n: "int n = \<bar>s\<bar>" by (simp add: n_def)
  have zero: "\<bar>M - int n\<bar> \<le> int n"
    using round_mag_nearest [of n 0] unfolding M_def m n_def by (simp add: bits_value_0)
  have k: "0 \<le> k" "scaled w = k \<or> scaled w = - k"
    by (simp_all add: k_def scaled_def)
  have zs: "scaled z = (if s < 0 then - M else M)" using z by (simp add: M_def)
  have M0: "0 \<le> M" by (simp add: M_def)
  have "(k \<noteq> M \<and> \<bar>k - int n\<bar> = \<bar>M - int n\<bar>) \<or> (0 \<noteq> M \<and> \<bar>0 - int n\<bar> = \<bar>M - int n\<bar>)"
    using w zero k zs n s M0 by (auto split: if_splits)
  then show ?thesis
  proof
    assume "k \<noteq> M \<and> \<bar>k - int n\<bar> = \<bar>M - int n\<bar>"
    then have "bits_value (low_bits w) \<noteq> bits_value (round_mag n)"
      "\<bar>int (bits_value (low_bits w)) - int n\<bar> = \<bar>int (bits_value (round_mag n)) - int n\<bar>"
      unfolding k_def M_def m n_def magnitude_bits_value by simp_all
    then show ?thesis unfolding m n_def [symmetric] by (rule round_mag_tie_even)
  next
    assume "0 \<noteq> M \<and> \<bar>0 - int n\<bar> = \<bar>M - int n\<bar>"
    then have "bits_value 0 \<noteq> bits_value (round_mag n)"
      "\<bar>int (bits_value 0) - int n\<bar> = \<bar>int (bits_value (round_mag n)) - int n\<bar>"
      unfolding M_def m n_def bits_value_0 by simp_all
    then show ?thesis unfolding m n_def [symmetric] by (rule round_mag_tie_even)
  qed
qed

lemma threshold_units:
  fixes s :: int
  shows "overflow_threshold \<le> \<bar>rat_of_int s / 2 ^ 149\<bar> \<longleftrightarrow> 2 ^ 277 - 2 ^ 252 \<le> nat \<bar>s\<bar>"
proof -
  have a: "\<bar>rat_of_int s / 2 ^ 149\<bar> = rat_of_int \<bar>s\<bar> / 2 ^ 149"
    by (simp only: abs_divide of_int_abs) simp
  have b: "overflow_threshold = rat_of_int (2 ^ 277 - 2 ^ 252) / 2 ^ 149"
    by (simp add: overflow_threshold_def)
  have "overflow_threshold \<le> \<bar>rat_of_int s / 2 ^ 149\<bar>
      \<longleftrightarrow> rat_of_int (2 ^ 277 - 2 ^ 252) / 2 ^ 149 \<le> rat_of_int \<bar>s\<bar> / 2 ^ 149"
    by (simp only: a b)
  also have "\<dots> \<longleftrightarrow> rat_of_int (2 ^ 277 - 2 ^ 252) \<le> rat_of_int \<bar>s\<bar>"
    by (rule divide_le_cancel [THEN trans]) simp
  also have "\<dots> \<longleftrightarrow> (2 ^ 277 - 2 ^ 252 :: int) \<le> \<bar>s\<bar>"
    by (rule of_int_le_iff)
  also have "\<dots> \<longleftrightarrow> 2 ^ 277 - 2 ^ 252 \<le> nat \<bar>s\<bar>"
    by simp linarith
  finally show ?thesis .
qed

lemma fadd_nearest_even:
  assumes x: "is_finite x" and y: "is_finite y"
  shows "nearest_even (valof x + valof y) (fadd x y)"
proof -
  define s where "s = scaled x + scaled y"
  define r where "r = valof x + valof y"
  have r: "r = rat_of_int s / 2 ^ 149"
    by (simp add: r_def s_def valof_def add_divide_distrib)
  have r0: "r = 0 \<longleftrightarrow> s = 0" and rneg: "r < 0 \<longleftrightarrow> s < 0"
    unfolding r by (simp_all add: divide_less_0_iff)
  have f: "fadd x y = (if s = 0 then encode (sign_bit x \<and> sign_bit y) 0
      else encode (s < 0) (round_mag (nat \<bar>s\<bar>)))"
    unfolding s_def by (rule fadd_finite [OF x y])
  show ?thesis
  proof (cases "s = 0")
    case True
    then have z: "fadd x y = encode (sign_bit x \<and> sign_bit y) 0" using f by simp
    have "scaled (fadd x y) = 0" "is_finite (fadd x y)"
      unfolding z using encode_finite [OF inf_bits_pos] by (simp_all add: bits_value_0)
    then have "valof (fadd x y) = 0" "is_finite (fadd x y)" by (simp_all add: valof_def)
    moreover have "r = 0" using True r0 by simp
    ultimately show ?thesis
      unfolding r_def [symmetric] by (simp add: nearest_even_def overflow_threshold_def)
  next
    case False
    define m where "m = round_mag (nat \<bar>s\<bar>)"
    have z: "fadd x y = encode (s < 0) m" using f False by (simp add: m_def)
    have th: "overflow_threshold \<le> \<bar>r\<bar> \<longleftrightarrow> inf_bits \<le> m"
      unfolding r threshold_units m_def round_mag_overflow_iff ..
    show ?thesis
    proof (cases "inf_bits \<le> m")
      case True
      then show ?thesis
        unfolding r_def [symmetric] nearest_even_def z using th rneg
        by (simp add: encode_overflow)
    next
      case fin: False
      then have lt: "m < inf_bits" by simp
      note e = encode_finite [OF lt, of "s < 0"]
      have sc: "scaled (fadd x y) = (if s < 0 then - int (bits_value m) else int (bits_value m))"
        unfolding z by (rule e(3))
      have near: "\<bar>valof (fadd x y) - r\<bar> \<le> \<bar>valof w - r\<bar>" for w
        unfolding r valof_dist
        using round_nearest_signed [OF False m_def sc, of w]
        by (simp add: divide_le_cancel)
      have tie: "even (frac_field (fadd x y))"
        if "valof w \<noteq> valof (fadd x y)" "\<bar>valof w - r\<bar> = \<bar>valof (fadd x y) - r\<bar>" for w
      proof -
        have "scaled w \<noteq> scaled (fadd x y)" using that(1) by (simp add: valof_eq_iff)
        moreover have "\<bar>scaled w - s\<bar> = \<bar>scaled (fadd x y) - s\<bar>"
          using that(2) unfolding r valof_dist by simp
        ultimately have "even m"
          by (rule round_tie_signed [OF False m_def sc])
        moreover have "frac_field (fadd x y) = m mod 2 ^ 23"
          unfolding z by (rule fields_of_encode(1) [OF lt])
        ultimately show ?thesis by (simp add: dvd_mod_iff)
      qed
      have sg: "sign_bit (fadd x y) = (r < 0)"
        unfolding z rneg by (rule fields_of_encode(3) [OF lt])
      show ?thesis
        unfolding r_def [symmetric] nearest_even_def z [symmetric]
        using th fin e(1) near tie sg z by auto
    qed
  qed
qed

text \<open>
  The sign of an exact zero sum, which the nearest value does not settle: \<open>+0\<close>, unless
  both operands are negative zeros.
\<close>

lemma fadd_zero_sign:
  assumes "is_finite x" "is_finite y" "valof x + valof y = 0"
  shows "sign_bit (fadd x y) = (sign_bit x \<and> sign_bit y)"
proof -
  have "rat_of_int (scaled x + scaled y) / 2 ^ 149 = 0"
    using assms(3) by (simp add: valof_def add_divide_distrib)
  then have "scaled x + scaled y = 0" by simp
  then show ?thesis
    unfolding fadd_finite [OF assms(1,2)] by (simp add: fields_of_encode(3) [OF inf_bits_pos])
qed

section \<open>The matcher decides the language\<close>

lemma nullable_lang: "nullable r \<longleftrightarrow> [] \<in> lang r"
  by (induction r) (auto intro: repeats.none)

lemma repeats_Cons:
  "c # w \<in> repeats A \<longleftrightarrow> (\<exists>u v. w = u @ v \<and> c # u \<in> A \<and> v \<in> repeats A)"
proof
  assume "c # w \<in> repeats A"
  then show "\<exists>u v. w = u @ v \<and> c # u \<in> A \<and> v \<in> repeats A"
  proof (induction "c # w" arbitrary: w rule: repeats.induct)
    case (more u v)
    show ?case
    proof (cases u)
      case Nil
      then show ?thesis using more by simp
    next
      case (Cons d u')
      then have "w = u' @ v" "c # u' \<in> A" using more.hyps(1,4) by simp_all
      then show ?thesis using more.hyps(2) by blast
    qed
  qed
next
  assume "\<exists>u v. w = u @ v \<and> c # u \<in> A \<and> v \<in> repeats A"
  then obtain u v where "w = u @ v" "c # u \<in> A" "v \<in> repeats A" by blast
  then show "c # w \<in> repeats A" using repeats.more [of "c # u" A v] by simp
qed

lemma lang_deriv: "w \<in> lang (deriv c r) \<longleftrightarrow> c # w \<in> lang r"
proof (induction r arbitrary: w)
  case (Then r s)
  show ?case
  proof
    assume "w \<in> lang (deriv c (Then r s))"
    then consider u v where "w = u @ v" "c # u \<in> lang r" "v \<in> lang s"
      | "nullable r" "c # w \<in> lang s"
      using Then by (auto split: if_splits)
    then show "c # w \<in> lang (Then r s)"
    proof cases
      case 1
      then have "(c # u) @ v \<in> lang (Then r s)" by (simp only: lang.simps) blast
      then show ?thesis using 1 by simp
    next
      case 2
      then have "[] \<in> lang r" "c # w \<in> lang s" by (simp_all add: nullable_lang)
      then have "[] @ (c # w) \<in> lang (Then r s)" by (simp only: lang.simps) blast
      then show ?thesis by simp
    qed
  next
    assume "c # w \<in> lang (Then r s)"
    then obtain u v where uv: "c # w = u @ v" "u \<in> lang r" "v \<in> lang s" by auto
    show "w \<in> lang (deriv c (Then r s))"
    proof (cases u)
      case Nil
      then have "nullable r" "c # w \<in> lang s" using uv by (simp_all add: nullable_lang)
      then show ?thesis using Then by simp
    next
      case (Cons d u')
      then have "w = u' @ v" "c # u' \<in> lang r" using uv by simp_all
      then have "u' \<in> lang (deriv c r)" "v \<in> lang s" using Then uv(3) by simp_all
      then have "u' @ v \<in> lang (Then (deriv c r) s)" by (simp only: lang.simps) blast
      then show ?thesis using \<open>w = u' @ v\<close> by simp
    qed
  qed
next
  case (Many r)
  have "w \<in> lang (deriv c (Many r)) \<longleftrightarrow>
      (\<exists>u v. w = u @ v \<and> u \<in> lang (deriv c r) \<and> v \<in> repeats (lang r))"
    by auto
  also have "\<dots> \<longleftrightarrow> (\<exists>u v. w = u @ v \<and> c # u \<in> lang r \<and> v \<in> repeats (lang r))"
    using Many by simp
  also have "\<dots> \<longleftrightarrow> c # w \<in> lang (Many r)"
    by (simp add: repeats_Cons)
  finally show ?case .
qed auto

lemma matches_lang: "matches r w \<longleftrightarrow> w \<in> lang r"
  by (induction w arbitrary: r) (simp_all add: nullable_lang lang_deriv)

section \<open>The primitives on a machine\<close>

lemma read_elem_Some:
  assumes "mem s x = map Some xs" "i < length xs"
  shows "read_elem x i s = Inr (xs ! i, s\<lparr>accesses := accesses s @ [Read x i]\<rparr>)"
  using assms by (simp add: read_elem_def)

lemma load_lanes_Some:
  "mem s x = map Some xs \<Longrightarrow> i + n \<le> length xs \<Longrightarrow>
   load_lanes x i n s =
     Inr (take n (drop i xs), s\<lparr>accesses := accesses s @ map (Read x) [i..<i + n]\<rparr>)"
proof (induction n arbitrary: i s)
  case 0
  then show ?case by simp
next
  case (Suc n)
  let ?s1 = "s\<lparr>accesses := accesses s @ [Read x i]\<rparr>"
  have i: "i < length xs" using Suc.prems by simp
  have r: "read_elem x i s = Inr (xs ! i, ?s1)"
    using Suc.prems(1) i by (rule read_elem_Some)
  have m1: "mem ?s1 x = map Some xs" using Suc.prems(1) by simp
  have rest: "load_lanes x (Suc i) n ?s1 =
      Inr (take n (drop (Suc i) xs),
           ?s1\<lparr>accesses := accesses ?s1 @ map (Read x) [Suc i..<Suc i + n]\<rparr>)"
    using Suc.IH [OF m1] Suc.prems(2) by simp
  have t: "take (Suc n) (drop i xs) = xs ! i # take n (drop (Suc i) xs)"
    using i by (simp add: Cons_nth_drop_Suc [symmetric])
  have u: "[i..<Suc (i + n)] = i # [Suc i..<Suc (i + n)]"
    by (simp add: upt_rec)
  show ?case
    by (simp add: r rest t u del: upt_Suc)
qed

lemma store_lanes_ok:
  "i + length vs \<le> length (mem s x) \<Longrightarrow>
   store_lanes x i vs s =
     Inr ((), s\<lparr>mem := (mem s)(x := take i (mem s x) @ map Some vs
                                       @ drop (i + length vs) (mem s x)),
                accesses := accesses s @ map (Write x) [i..<i + length vs]\<rparr>)"
proof (induction vs arbitrary: i s)
  case Nil
  then show ?case by simp
next
  case (Cons v vs)
  let ?cells = "mem s x"
  let ?s1 = "s\<lparr>mem := (mem s)(x := ?cells[i := Some v]),
               accesses := accesses s @ [Write x i]\<rparr>"
  have i: "i < length ?cells" using Cons.prems by simp
  have w: "write_elem x i v s = Inr ((), ?s1)"
    using i by (simp add: write_elem_def)
  have len: "Suc i + length vs \<le> length (mem ?s1 x)" using Cons.prems by simp
  have u: "[i..<Suc (i + length vs)] = i # [Suc i..<Suc (i + length vs)]"
    by (simp add: upt_rec)
  have cells: "take (Suc i) (?cells[i := Some v]) @ map Some vs
        @ drop (Suc i + length vs) (?cells[i := Some v])
      = take i ?cells @ map Some (v # vs) @ drop (i + length (v # vs)) ?cells"
    using i by (simp add: take_Suc_conv_app_nth)
  have f: "(\<lambda>y. if y = x
             then take i ?cells @ Some v # map Some vs @ drop (Suc (i + length vs)) ?cells
             else if y = x then ?cells[i := Some v] else mem s y)
        = (\<lambda>y. if y = x
             then take i ?cells @ Some v # map Some vs @ drop (Suc (i + length vs)) ?cells
             else mem s y)"
    by auto
  show ?case
    using cells by (simp add: w Cons.IH [OF len] u f del: upt_Suc)
qed

lemma report_loop_ok:
  "mem s Arr_c = map Some cs \<Longrightarrow> length cs = 8 \<Longrightarrow> k \<le> 8 \<Longrightarrow>
   report_loop (int k) s =
     Inr ((), s\<lparr>cout := cout s @ report_text (drop k cs),
                accesses := accesses s @ map (Read Arr_c) [k..<8]\<rparr>)"
proof (induction "8 - k" arbitrary: k s)
  case 0
  then have "k = 8" by simp
  then show ?case using 0 by (subst report_loop.simps) (simp add: report_text_def)
next
  case (Suc n)
  then have k: "k < 8" by simp
  let ?v = "cs ! k"
  let ?s1 = "s\<lparr>accesses := accesses s @ [Read Arr_c k]\<rparr>"
  let ?s2 = "put_str '' '' (put_str (show_float ?v) ?s1)"
  have r: "read_elem Arr_c k s = Inr (?v, ?s1)"
    using Suc.prems k by (simp add: read_elem_Some)
  have m2: "mem ?s2 Arr_c = map Some cs" using Suc.prems(1) by (simp add: put_str_def)
  have n: "n = 8 - Suc k" using Suc.hyps(2) by simp
  have ih: "report_loop (int (Suc k)) ?s2 =
     Inr ((), ?s2\<lparr>cout := cout ?s2 @ report_text (drop (Suc k) cs),
                accesses := accesses ?s2 @ map (Read Arr_c) [Suc k..<8]\<rparr>)"
    using Suc.hyps(1) [OF n m2 Suc.prems(2)] k by simp
  have d: "drop k cs = ?v # drop (Suc k) cs"
    using k Suc.prems(2) by (simp add: Cons_nth_drop_Suc)
  have u: "[k..<8] = k # [Suc k..<8]" using k by (simp add: upt_rec)
  have step: "report_loop (int k) s = report_loop (int (Suc k)) ?s2"
    using k by (subst report_loop.simps) (simp add: r add.commute)
  show ?case
    unfolding step ih by (simp add: d u report_text_def put_str_def)
qed

section \<open>The run of main\<close>

lemma main_with_ok:
  assumes a: "length a = 8" and b: "length b = 8"
  shows "main_with a b s0 = Inr (0, final_state a b s0)"
proof -
  define s3 where "s3 = declare_array Arr_c (replicate 8 None)
      (declare_array Arr_b (map Some b) (declare_array Arr_a (map Some a) s0))"
  have m3: "mem s3 Arr_a = map Some a" "mem s3 Arr_b = map Some b"
      "mem s3 Arr_c = replicate 8 None"
    by (simp_all add: s3_def declare_array_def)
  define s4 where "s4 = s3\<lparr>accesses := accesses s3 @ map (Read Arr_a) [0..<8]\<rparr>"
  have la: "load_u Arr_a s3 = Inr (a, s4)"
    using load_lanes_Some [OF m3(1), of 0 8] a by (simp add: load_u_def lanes_def s4_def)
  define s5 where "s5 = s4\<lparr>accesses := accesses s4 @ map (Read Arr_b) [0..<8]\<rparr>"
  have m4: "mem s4 Arr_b = map Some b" by (simp add: s4_def m3)
  have lb: "load_u Arr_b s4 = Inr (b, s5)"
    using load_lanes_Some [OF m4, of 0 8] b by (simp add: load_u_def lanes_def s5_def)
  have lc: "length (vec_add a b) = 8" by (simp add: length_vec_add a b)
  define s6 where "s6 = s5\<lparr>mem := (mem s5)(Arr_c := map Some (vec_add a b)),
      accesses := accesses s5 @ map (Write Arr_c) [0..<8]\<rparr>"
  have m5: "mem s5 Arr_c = replicate 8 None" by (simp add: s5_def s4_def m3)
  have st: "store_u Arr_c (vec_add a b) s5 = Inr ((), s6)"
    using store_lanes_ok [of 0 "vec_add a b" s5 Arr_c] lc m5
    by (simp add: store_u_def s6_def)
  define s7 where "s7 = put_str ''Result: '' s6"
  have m7: "mem s7 Arr_c = map Some (vec_add a b)" by (simp add: s7_def s6_def put_str_def)
  define s8 where "s8 = s7\<lparr>cout := cout s7 @ report_text (vec_add a b),
                   accesses := accesses s7 @ map (Read Arr_c) [0..<8]\<rparr>"
  have rl: "report_loop 0 s7 = Inr ((), s8)"
    using report_loop_ok [OF m7 lc, of 0] by (simp add: s8_def)
  have "main_with a b s0 = Inr (0, put_str [CHR 0x0A] s8)"
    by (simp add: main_with_def Let_def s3_def [symmetric] la lb st s7_def [symmetric] rl)
  also have "put_str [CHR 0x0A] s8 = final_state a b s0"
    by (simp add: final_state_def report_line_def s8_def s7_def s6_def s5_def s4_def s3_def
        put_str_def declare_array_def del: upt_Suc)
  finally show ?thesis .
qed

lemma main_ok: "main s0 = Inr (0, final_state a_init b_init s0)"
  unfolding main_def by (rule main_with_ok [OF length_a_init length_b_init])

lemma mem_final_state:
  "mem (final_state a b s0) Arr_a = map Some a"
  "mem (final_state a b s0) Arr_b = map Some b"
  "mem (final_state a b s0) Arr_c = map Some (vec_add a b)"
  by (simp_all add: final_state_def)

lemma cout_final_state_from:
  "cout s0 = [] \<Longrightarrow> cout (final_state a b s0) = report_line (vec_add a b)"
  by (simp add: final_state_def)

lemma accesses_final_state_from:
  "accesses s0 = [] \<Longrightarrow>
   accesses (final_state a b s0) =
     map (Read Arr_a) [0..<8] @ map (Read Arr_b) [0..<8]
     @ map (Write Arr_c) [0..<8] @ map (Read Arr_c) [0..<8]"
  by (simp add: final_state_def del: upt_Suc)

lemma context_final_state:
  "args (final_state a b s0) = args s0" "environ (final_state a b s0) = environ s0"
  by (simp_all add: final_state_def)

lemma startup_fresh:
  "cout (startup argv envp) = []" "accesses (startup argv envp) = []"
  "args (startup argv envp) = argv" "environ (startup argv envp) = envp"
  by (simp_all add: startup_def)

lemma boot_startup: "boot = startup [] []"
  by (simp add: boot_def startup_def)

lemma cout_final_state: "cout (final_state a b boot) = report_line (vec_add a b)"
  by (simp add: final_state_def boot_def)

lemma accesses_final_state:
  "accesses (final_state a b boot) =
     map (Read Arr_a) [0..<8] @ map (Read Arr_b) [0..<8]
     @ map (Write Arr_c) [0..<8] @ map (Read Arr_c) [0..<8]"
  by (simp add: final_state_def boot_def del: upt_Suc)

text \<open>The fault model is live: a shorter initialiser makes the load run past the array.\<close>

lemma short_array_faults:
  "main_with [0, 0, 0, 0, 0, 0, 0] b_init boot = Inl (Out_of_bounds Arr_a 7)"
  by (simp add: main_with_def Let_def declare_array_def load_u_def lanes_def boot_def
      read_elem_def numeral_eq_Suc)

section \<open>Facts about the access log\<close>

lemma filter_is_write_Read: "filter is_write (map (Read x) ns) = []"
  by (induction ns) simp_all

lemma filter_is_write_Write: "filter is_write (map (Write x) ns) = map (Write x) ns"
  by (induction ns) simp_all

lemma filter_on_array_Read:
  "filter (on_array x) (map (Read y) ns) = (if x = y then map (Read y) ns else [])"
  by (induction ns) (auto simp add: on_array_def)

lemma filter_on_array_Write:
  "filter (on_array x) (map (Write y) ns) = (if x = y then map (Write y) ns else [])"
  by (induction ns) (auto simp add: on_array_def)

lemmas filter_log =
  filter_is_write_Read filter_is_write_Write filter_on_array_Read filter_on_array_Write

lemma in_bounds_Read:
  "length (mem s x) = 8 \<Longrightarrow> list_all (in_bounds s) (map (Read x) [0..<8])"
  by (simp add: list_all_iff in_bounds_def)

lemma in_bounds_Write:
  "length (mem s x) = 8 \<Longrightarrow> list_all (in_bounds s) (map (Write x) [0..<8])"
  by (simp add: list_all_iff in_bounds_def)

lemma replicate_8: "replicate 8 x = [x, x, x, x, x, x, x, x]"
  by (simp add: numeral_eq_Suc)

lemma main_boot_stdout:
  "stdout_text (main boot) = Some (''Result: 9 9 9 9 9 9 9 9 '' @ [CHR 0x0A])"
  using report_line_nines
  by (simp add: stdout_text_def main_ok cout_final_state sum_bits)

section \<open>The claims\<close>

text \<open>
  C1. For the literal inputs \<open>A = (1, ..., 8)\<close> and \<open>B = (8, ..., 1)\<close> the array \<open>c\<close> holds
  \<open>(9, 9, 9, 9, 9, 9, 9, 9)\<close> when \<^verbatim>\<open>main\<close> returns, and every stored value is the exact sum
  of its two operands: no rounding took place.
\<close>

theorem literal_sum_is_nine:
  "array_after Arr_c (main boot) = Some (replicate 8 (Some (float_of_nat 9)))
   \<and> map valof a_init = [1, 2, 3, 4, 5, 6, 7, 8]
   \<and> map valof b_init = [8, 7, 6, 5, 4, 3, 2, 1]
   \<and> map valof (vec_add a_init b_init) = [9, 9, 9, 9, 9, 9, 9, 9]
   \<and> map valof (vec_add a_init b_init) = map2 (\<lambda>x y. valof x + valof y) a_init b_init"
proof -
  have c: "array_after Arr_c (main boot) = Some (replicate 8 (Some (float_of_nat 9)))"
    by (simp add: array_after_def main_ok mem_final_state sum_bits nine_bits replicate_8)
  have s: "map valof (vec_add a_init b_init) = [9, 9, 9, 9, 9, 9, 9, 9]"
    by (simp add: sum_bits valof_nine)
  have "map2 (\<lambda>x y. valof x + valof y) a_init b_init
      = map2 (+) (map valof a_init) (map valof b_init)"
    by (simp add: zip_map_map map_zip_map map_zip_map2 split_def)
  also have "\<dots> = [9, 9, 9, 9, 9, 9, 9, 9]"
    by (simp add: valof_a_init valof_b_init)
  finally have e: "map valof (vec_add a_init b_init)
      = map2 (\<lambda>x y. valof x + valof y) a_init b_init"
    using s by simp
  show ?thesis using c s e valof_a_init valof_b_init by simp
qed

text \<open>
  C2. For every pair of 8-element inputs the run of the adder leaves three arrays of 8
  elements, \<open>a\<close> and \<open>b\<close> holding the inputs and \<open>c[i]\<close> holding the binary32 sum
  \<open>fadd (a[i]) (b[i])\<close> for every \<open>i < 8\<close>. Where both operands are finite, that sum is the
  exact sum \<open>a[i] + b[i]\<close> rounded to nearest, ties to even: the nearest representable
  value, the one with the even significand in a tie, the infinity of the same sign from
  the overflow threshold on.
\<close>

theorem adder_lanewise:
  assumes "length a = 8" and "length b = 8"
  shows "\<exists>s. main_with a b boot = Inr (0, s)
     \<and> length (mem s Arr_a) = 8 \<and> length (mem s Arr_b) = 8 \<and> length (mem s Arr_c) = 8
     \<and> (\<forall>i<8. mem s Arr_a ! i = Some (a ! i) \<and> mem s Arr_b ! i = Some (b ! i)
            \<and> mem s Arr_c ! i = Some (fadd (a ! i) (b ! i))
            \<and> (is_finite (a ! i) \<and> is_finite (b ! i) \<longrightarrow>
                 nearest_even (valof (a ! i) + valof (b ! i)) (fadd (a ! i) (b ! i))))"
proof (intro exI conjI allI impI)
  show "main_with a b boot = Inr (0, final_state a b boot)"
    using assms by (rule main_with_ok)
  show "length (mem (final_state a b boot) Arr_a) = 8"
    using assms by (simp add: mem_final_state)
  show "length (mem (final_state a b boot) Arr_b) = 8"
    using assms by (simp add: mem_final_state)
  show "length (mem (final_state a b boot) Arr_c) = 8"
    using assms by (simp add: mem_final_state length_vec_add)
next
  fix i :: nat
  assume i: "i < 8"
  show "mem (final_state a b boot) Arr_a ! i = Some (a ! i)"
    using assms i by (simp add: mem_final_state)
  show "mem (final_state a b boot) Arr_b ! i = Some (b ! i)"
    using assms i by (simp add: mem_final_state)
  show "mem (final_state a b boot) Arr_c ! i = Some (fadd (a ! i) (b ! i))"
    using assms i by (simp add: mem_final_state length_vec_add nth_vec_add)
next
  fix i :: nat
  assume "is_finite (a ! i) \<and> is_finite (b ! i)"
  then show "nearest_even (valof (a ! i) + valof (b ! i)) (fadd (a ! i) (b ! i))"
    by (simp add: fadd_nearest_even)
qed

lemma finite_a_init_3: "is_finite (a_init ! 3)"
  unfolding a_init_bits by (simp add: is_finite_def exp_field_def)

lemma finite_b_init_3: "is_finite (b_init ! 3)"
  unfolding b_init_bits by (simp add: is_finite_def exp_field_def)

theorem adder_lanewise_witness:
  "length a_init = 8 \<and> length b_init = 8
   \<and> is_finite (a_init ! 3) \<and> is_finite (b_init ! 3)
   \<and> (\<exists>s. main_with a_init b_init boot = Inr (0, s)
         \<and> length (mem s Arr_c) = 8
         \<and> mem s Arr_c ! 3 = Some (fadd (a_init ! 3) (b_init ! 3))
         \<and> nearest_even (valof (a_init ! 3) + valof (b_init ! 3))
              (fadd (a_init ! 3) (b_init ! 3)))"
proof -
  obtain s where s: "main_with a_init b_init boot = Inr (0, s)" "length (mem s Arr_c) = 8"
      "\<forall>i<8. mem s Arr_c ! i = Some (fadd (a_init ! i) (b_init ! i))
          \<and> (is_finite (a_init ! i) \<and> is_finite (b_init ! i) \<longrightarrow>
               nearest_even (valof (a_init ! i) + valof (b_init ! i))
                 (fadd (a_init ! i) (b_init ! i)))"
    using adder_lanewise [OF length_a_init length_b_init] by blast
  have "mem s Arr_c ! 3 = Some (fadd (a_init ! 3) (b_init ! 3))"
    "nearest_even (valof (a_init ! 3) + valof (b_init ! 3)) (fadd (a_init ! 3) (b_init ! 3))"
    using s(3) finite_a_init_3 finite_b_init_3 by simp_all
  then show ?thesis
    using s(1,2) length_a_init length_b_init finite_a_init_3 finite_b_init_3 by blast
qed

text \<open>
  C3. The run writes one line: the prefix \<^verbatim>\<open>Result: \<close>, then the 8 elements of \<open>c\<close> in index
  order, each converted by the stream's default formatting and followed by one space, then a
  newline. That holds for every pair of 8-element inputs. The line that the program writes
  is in the language of the spec's regular expression, has 8 numeric fields, and its only newline is its
  last character.
\<close>

theorem reporter_line:
  "(length a = 8 \<and> length b = 8 \<longrightarrow>
      (\<exists>cs. array_after Arr_c (main_with a b boot) = Some (map Some cs) \<and> length cs = 8
          \<and> stdout_text (main_with a b boot) = Some (report_line cs)))
   \<and> (\<exists>line. stdout_text (main boot) = Some line \<and> line \<in> lang line_re
          \<and> length (numeric_fields line) = 8
          \<and> count_list line (CHR 0x0A) = 1 \<and> last line = CHR 0x0A)"
proof (intro conjI impI)
  assume "length a = 8 \<and> length b = 8"
  then have l: "length a = 8" "length b = 8" by simp_all
  show "\<exists>cs. array_after Arr_c (main_with a b boot) = Some (map Some cs) \<and> length cs = 8
          \<and> stdout_text (main_with a b boot) = Some (report_line cs)"
    by (rule exI [of _ "vec_add a b"])
      (simp add: main_with_ok [OF l] array_after_def stdout_text_def mem_final_state
        cout_final_state length_vec_add l)
next
  show "\<exists>line. stdout_text (main boot) = Some line \<and> line \<in> lang line_re
          \<and> length (numeric_fields line) = 8
          \<and> count_list line (CHR 0x0A) = 1 \<and> last line = CHR 0x0A"
    using main_boot_stdout line_matches line_numeric_fields
    by (simp add: matches_lang [symmetric])
qed

theorem reporter_line_witness:
  "length a_init = 8 \<and> length b_init = 8
   \<and> (\<exists>cs. array_after Arr_c (main_with a_init b_init boot) = Some (map Some cs)
         \<and> length cs = 8
         \<and> stdout_text (main_with a_init b_init boot) = Some (report_line cs))"
  using reporter_line [of a_init b_init] length_a_init length_b_init
  by simp





text \<open>
  C5. Every run exits with status 0, whatever the arguments and the environment; and the
  body of \<^verbatim>\<open>main\<close> has no other status to return: from any start, with any initialisers, it
  returns 0 if it returns.
\<close>

theorem exit_status_zero:
  "exit_status (run argv envp) = Some 0
   \<and> exit_status (main_with a b s) \<in> {None, Some 0}"
proof
  show "exit_status (run argv envp) = Some 0"
    by (simp add: run_def main_ok exit_status_def)
  show "exit_status (main_with a b s) \<in> {None, Some 0}"
    by (simp add: main_with_def exit_status_def Let_def split: sum.splits prod.splits)
qed

text \<open>
  C6. In a run on 8-element inputs, \<open>a\<close> and \<open>b\<close> hold their initial values at the end, no
  element of \<open>a\<close> or \<open>b\<close> is ever written (the only writes of the whole run are the 8 of the
  store into \<open>c\<close>, one per index), and every access to \<open>c\<close> after the store is a read.
\<close>

theorem inputs_kept_output_written_once:
  assumes "length a = 8" and "length b = 8"
  shows "\<exists>s. main_with a b boot = Inr (0, s)
     \<and> mem s Arr_a = map Some a \<and> mem s Arr_b = map Some b
     \<and> filter is_write (accesses s) = map (Write Arr_c) [0..<8]
     \<and> filter (on_array Arr_c) (accesses s)
         = map (Write Arr_c) [0..<8] @ map (Read Arr_c) [0..<8]"
  by (rule exI [of _ "final_state a b boot"])
    (simp add: main_with_ok assms mem_final_state accesses_final_state filter_log
      del: upt_Suc)

theorem inputs_kept_output_written_once_witness:
  "length a_init = 8 \<and> length b_init = 8
   \<and> (\<exists>s. main boot = Inr (0, s)
         \<and> mem s Arr_a = map Some a_init \<and> mem s Arr_b = map Some b_init
         \<and> filter is_write (accesses s) = map (Write Arr_c) [0..<8])"
  using inputs_kept_output_written_once [OF length_a_init length_b_init]
    length_a_init length_b_init
  by (auto simp add: main_def)

text \<open>
  C7. Every run returns. The reporter loop makes exactly 8 iterations, whatever the
  8 values in \<open>c\<close> are: it returns after reading \<open>c[0]\<close> to \<open>c[7]\<close> once each.
\<close>

theorem program_terminates:
  "(\<exists>s. run argv envp = Inr (0, s)
        \<and> length (filter (\<lambda>e. on_array Arr_c e \<and> \<not> is_write e) (accesses s)) = 8)
   \<and> (\<forall>s cs. mem s Arr_c = map Some cs \<and> length cs = 8 \<longrightarrow>
         (\<exists>s'. report_loop 0 s = Inr ((), s')
            \<and> accesses s' = accesses s @ map (Read Arr_c) [0..<8]))"
proof (intro conjI allI impI)
  have "filter (\<lambda>e. on_array Arr_c e \<and> \<not> is_write e)
        (accesses (final_state a_init b_init (startup argv envp)))
      = map (Read Arr_c) [0..<8]"
    by (simp add: accesses_final_state_from startup_fresh on_array_def)
  then show "\<exists>s. run argv envp = Inr (0, s)
        \<and> length (filter (\<lambda>e. on_array Arr_c e \<and> \<not> is_write e) (accesses s)) = 8"
    by (simp add: run_def main_ok)
next
  fix s :: machine and cs
  assume "mem s Arr_c = map Some cs \<and> length cs = 8"
  then have h: "mem s Arr_c = map Some cs" "length cs = 8" by simp_all
  show "\<exists>s'. report_loop 0 s = Inr ((), s')
            \<and> accesses s' = accesses s @ map (Read Arr_c) [0..<8]"
    using report_loop_ok [OF h, of 0] by simp
qed

theorem program_terminates_witness:
  "mem (declare_array Arr_c (map Some [0, 0, 0, 0, 0, 0, 0, 0]) boot) Arr_c
     = map Some [0, 0, 0, 0, 0, 0, 0, 0]
   \<and> length [0 :: float32, 0, 0, 0, 0, 0, 0, 0] = 8
   \<and> (\<exists>s'. report_loop 0 (declare_array Arr_c (map Some [0, 0, 0, 0, 0, 0, 0, 0]) boot)
               = Inr ((), s')
         \<and> accesses s' = map (Read Arr_c) [0..<8])"
proof -
  let ?s = "declare_array Arr_c (map Some [0, 0, 0, 0, 0, 0, 0, 0]) boot"
  have m: "mem ?s Arr_c = map Some [0, 0, 0, 0, 0, 0, 0, 0]"
    by (simp add: declare_array_def)
  have l: "length [0 :: float32, 0, 0, 0, 0, 0, 0, 0] = 8" by simp
  have a: "accesses ?s = []" by (simp add: declare_array_def boot_def)
  from program_terminates [of "[]" "[]"]
  have "\<exists>s'. report_loop 0 ?s = Inr ((), s')
            \<and> accesses s' = accesses ?s @ map (Read Arr_c) [0..<8]"
    using m l by blast
  then show ?thesis using m l a by simp
qed

text \<open>
  The arguments and the environment are in the machine from the start to the end of a
  run, so two runs started differently do end in different machines.
\<close>

lemma run_keeps_context:
  "\<exists>s. run argv envp = Inr (0, s) \<and> args s = argv \<and> environ s = envp"
  by (simp add: run_def main_ok context_final_state startup_fresh)

lemma run_stdout:
  "stdout_text (run argv envp) = Some (''Result: 9 9 9 9 9 9 9 9 '' @ [CHR 0x0A])"
  using report_line_nines
  by (simp add: run_def main_ok stdout_text_def cout_final_state_from startup_fresh sum_bits)

text \<open>
  C8. Two runs with any arguments and any environments write the same standard output
  and exit with the same status: whatever the machine holds of the invocation, a run
  writes the line \<^verbatim>\<open>Result: 9 9 9 9 9 9 9 9 \<close> and exits with status 0.
\<close>

theorem run_ignores_context:
  "stdout_text (run argv envp) = stdout_text (run argv' envp')
   \<and> exit_status (run argv envp) = exit_status (run argv' envp')
   \<and> stdout_text (run argv envp) = Some (''Result: 9 9 9 9 9 9 9 9 '' @ [CHR 0x0A])
   \<and> exit_status (run argv envp) = Some 0"
proof -
  have e: "exit_status (run args1 env1) = Some 0" for args1 env1
    by (simp add: run_def main_ok exit_status_def)
  show ?thesis
    using run_stdout [of argv envp] run_stdout [of argv' envp'] e [of argv envp]
      e [of argv' envp']
    by simp
qed

text \<open>
  C9. The run of the program meets no fault: no access is out of bounds and no
  indeterminate cell is read. All three arrays have 8 elements, every logged access has an
  index below the length of its array, the loads read exactly \<open>a[0..7]\<close> and \<open>b[0..7]\<close>, and
  on \<open>c\<close> the store writes indices 0 to 7 before the loop reads indices 0 to 7.
\<close>

theorem accesses_within_bounds:
  "\<exists>s. main boot = Inr (0, s)
     \<and> map (\<lambda>x. length (mem s x)) [Arr_a, Arr_b, Arr_c] = [8, 8, 8]
     \<and> list_all (in_bounds s) (accesses s)
     \<and> filter (on_array Arr_a) (accesses s) = map (Read Arr_a) [0..<8]
     \<and> filter (on_array Arr_b) (accesses s) = map (Read Arr_b) [0..<8]
     \<and> filter (on_array Arr_c) (accesses s)
         = map (Write Arr_c) [0..<8] @ map (Read Arr_c) [0..<8]"
proof -
  let ?s = "final_state a_init b_init boot"
  have len: "length (mem ?s Arr_a) = 8" "length (mem ?s Arr_b) = 8" "length (mem ?s Arr_c) = 8"
    by (simp_all add: mem_final_state length_a_init length_b_init length_vec_add)
  have "list_all (in_bounds ?s) (accesses ?s)"
    unfolding accesses_final_state list_all_append
    using len by (intro conjI in_bounds_Read in_bounds_Write)
  then show ?thesis
    using len
    by (intro exI [of _ ?s])
      (simp add: main_ok accesses_final_state filter_log del: upt_Suc)
qed

text \<open>
  C10. For the literal inputs each of the 8 printed numbers is the single character
  \<^verbatim>\<open>9\<close>: that is what the default formatting makes of the binary32 value 9.
\<close>

theorem printed_tokens_are_9:
  "show_float (float_of_nat 9) = ''9''
   \<and> stdout_text (main boot) = Some (''Result: 9 9 9 9 9 9 9 9 '' @ [CHR 0x0A])
   \<and> map_option numeric_fields (stdout_text (main boot)) = Some (replicate 8 ''9'')"
  using main_boot_stdout line_numeric_fields
  by (simp add: nine_bits show_float_nine replicate_8)

end
